theory Spec2Isabelle
  imports Main
begin

section \<open>Strings of the Go program\<close>

text \<open>
  A Go string is read here as the sequence of runes (Unicode code points) that decoding
  it yields; \<open>strings.Split\<close> with the one-byte separator \<open>","\<close>,
  \<open>strings.TrimSpace\<close> and the scanner of \<open>fmt.Sscanf\<close> all work rune by rune. The empty
  string is the empty list. \<open>str\<close> turns an ASCII literal into such a string.
\<close>

type_synonym rune = nat
type_synonym gostring = "rune list"

definition str :: "string \<Rightarrow> gostring" where
  "str s = map of_char s"

definition comma :: rune where
  "comma = 44"

text \<open>
  \<open>unicode.IsSpace\<close>, which is also the table \<open>space\<close> of \<open>fmt/scan.go\<close>: the Unicode
  White_Space property.
\<close>

definition IsSpace :: "rune \<Rightarrow> bool" where
  "IsSpace r \<longleftrightarrow>
     (9 \<le> r \<and> r \<le> 13) \<or> r = 32 \<or> r = 133 \<or> r = 160 \<or> r = 5760 \<or>
     (8192 \<le> r \<and> r \<le> 8202) \<or> r = 8232 \<or> r = 8233 \<or> r = 8239 \<or> r = 8287 \<or>
     r = 12288"

text \<open>\<open>strings.TrimSpace\<close>: leading and trailing white space removed.\<close>

definition TrimSpace :: "gostring \<Rightarrow> gostring" where
  "TrimSpace s = rev (dropWhile IsSpace (rev (dropWhile IsSpace s)))"

text \<open>
  \<open>strings.Split(s, ",")\<close>: the pieces of \<open>s\<close> between the separators; one piece more
  than there are separators, so the empty string gives one empty piece.
\<close>

fun Split :: "gostring \<Rightarrow> rune \<Rightarrow> gostring list" where
  "Split [] sep = [[]]"
| "Split (r # rs) sep =
     (if r = sep then [] # Split rs sep
      else (case Split rs sep of
              [] \<Rightarrow> [[r]]
            | piece # pieces \<Rightarrow> (r # piece) # pieces))"

section \<open>parseCommaSeparated\<close>

text \<open>
  The loop of \<open>parseCommaSeparated\<close> over the pieces, with \<open>result\<close> as the slice built
  so far: a piece is kept, trimmed, when the trimmed piece is not empty.
\<close>

fun parseCommaSeparated_loop :: "gostring list \<Rightarrow> gostring list \<Rightarrow> gostring list" where
  "parseCommaSeparated_loop [] result = result"
| "parseCommaSeparated_loop (part # parts) result =
     (let trimmed = TrimSpace part
      in if trimmed \<noteq> [] then parseCommaSeparated_loop parts (result @ [trimmed])
         else parseCommaSeparated_loop parts result)"

definition parseCommaSeparated :: "gostring \<Rightarrow> gostring list" where
  "parseCommaSeparated input = parseCommaSeparated_loop (Split input comma) []"

section \<open>parsePorts\<close>

text \<open>
  \<open>fmt.Sscanf(p, "%d", &port)\<close> as the scanner of package \<open>fmt\<close> runs it: white space is
  skipped (a newline is an error), one optional sign is accepted, at least one decimal
  digit must follow, and the digits that follow are the token. The scan stops at the
  first rune that is not a digit; what is left of the input is not looked at. The token
  is converted by \<open>strconv.ParseInt(tok, 10, 64)\<close> and must fit the \<open>int\<close> of the
  platform (64 bits on every release target).
\<close>

datatype scanerr = UnexpectedNewline | ScanEOF | ExpectedInteger | IntegerRange

fun SkipSpace :: "gostring \<Rightarrow> scanerr + gostring" where
  "SkipSpace [] = Inr []"
| "SkipSpace (r # rs) =
     (if r = 13 \<and> (case rs of [] \<Rightarrow> False | r' # _ \<Rightarrow> r' = 10) then SkipSpace rs
      else if r = 10 then Inl UnexpectedNewline
      else if \<not> IsSpace r then Inr (r # rs)
      else SkipSpace rs)"

definition isDigit :: "rune \<Rightarrow> bool" where
  "isDigit r \<longleftrightarrow> 48 \<le> r \<and> r \<le> 57"

definition isSign :: "rune \<Rightarrow> bool" where
  "isSign r \<longleftrightarrow> r = 43 \<or> r = 45"

fun digitsValue :: "int \<Rightarrow> rune list \<Rightarrow> int" where
  "digitsValue acc [] = acc"
| "digitsValue acc (d # ds) = digitsValue (acc * 10 + int (d - 48)) ds"

definition intBits :: nat where
  "intBits = 64"

definition scanNumber :: "bool \<Rightarrow> gostring \<Rightarrow> scanerr + int" where
  "scanNumber negative s =
     (case s of
        [] \<Rightarrow> Inl ScanEOF
      | d # _ \<Rightarrow>
          if \<not> isDigit d then Inl ExpectedInteger
          else
            (let v = digitsValue 0 (takeWhile isDigit s);
                 i = (if negative then - v else v)
             in if i < - (2 ^ 63) \<or> 2 ^ 63 \<le> i then Inl IntegerRange
                else if i < - (2 ^ (intBits - 1)) \<or> 2 ^ (intBits - 1) \<le> i then Inl IntegerRange
                else Inr i))"

definition scanInt :: "gostring \<Rightarrow> scanerr + int" where
  "scanInt input =
     (case SkipSpace input of
        Inl e \<Rightarrow> Inl e
      | Inr [] \<Rightarrow> Inl ScanEOF
      | Inr (r # rs) \<Rightarrow>
          if isSign r then scanNumber (r = 45) rs else scanNumber False (r # rs))"

definition Sscanf_d :: "gostring \<Rightarrow> scanerr + int" where
  "Sscanf_d input =
     (case SkipSpace input of
        Inl e \<Rightarrow> Inl e
      | Inr s \<Rightarrow> scanInt s)"

datatype porterr = InvalidPort gostring scanerr | PortOutOfRange int

text \<open>The loop of \<open>parsePorts\<close>, with \<open>ports\<close> as the slice built so far.\<close>

fun parsePorts_loop :: "gostring list \<Rightarrow> int list \<Rightarrow> porterr + int list" where
  "parsePorts_loop [] ports = Inr ports"
| "parsePorts_loop (p # ps) ports =
     (case Sscanf_d p of
        Inl err \<Rightarrow> Inl (InvalidPort p err)
      | Inr port \<Rightarrow>
          if port \<le> 0 \<or> port > 65535 then Inl (PortOutOfRange port)
          else parsePorts_loop ps (ports @ [port]))"

definition parsePorts :: "gostring list \<Rightarrow> porterr + int list" where
  "parsePorts portStrs = parsePorts_loop portStrs []"

section \<open>The flag-handling part of main\<close>

record flags =
  ifacesFlag :: gostring
  portsFlag :: gostring
  groupsFlag :: gostring
  destPortsFlag :: gostring
  verboseFlag :: bool

text \<open>
  An error of package \<open>net\<close>: a \<open>*net.OpError\<close>, with what its \<open>Timeout()\<close> answers, or
  an error of any other type.
\<close>

datatype goerr = OpError bool gostring | OtherError gostring

text \<open>Every call of \<open>log.Fatalf\<close> in the program, with the values it prints.\<close>

datatype fatal =
    NoInterfacesSpecified
  | NoPortsSpecified
  | NoGroupsSpecified
  | ErrorParsingPorts porterr
  | ErrorParsingDestPorts porterr
  | PortCountMismatch nat nat
  | FailedToParseGroup gostring
  | CouldNotFindInterface gostring goerr
  | CouldNotDetermineIPv4 gostring goerr
  | FailedToListen gostring int gostring goerr
  | CouldNotCreateSender gostring gostring gostring int goerr

record config =
  cfg_ifaces :: "gostring list"
  cfg_groups :: "gostring list"
  cfg_ports :: "int list"
  cfg_destPorts :: "int list"
  cfg_verbose :: bool

text \<open>
  \<open>main\<close> from the validation of the mandatory flags to the destination ports: the
  first failing check ends the process through \<open>log.Fatalf\<close>.
\<close>

definition main_config :: "flags \<Rightarrow> fatal + config" where
  "main_config fl =
     (if ifacesFlag fl = [] then Inl NoInterfacesSpecified
      else if portsFlag fl = [] then Inl NoPortsSpecified
      else if groupsFlag fl = [] then Inl NoGroupsSpecified
      else
        (let ifaceNames = parseCommaSeparated (ifacesFlag fl);
             portStrs = parseCommaSeparated (portsFlag fl);
             groupStrs = parseCommaSeparated (groupsFlag fl)
         in case parsePorts portStrs of
              Inl err \<Rightarrow> Inl (ErrorParsingPorts err)
            | Inr ports \<Rightarrow>
                (let groupStrs = map TrimSpace groupStrs
                 in if destPortsFlag fl \<noteq> [] then
                      (case parsePorts (parseCommaSeparated (destPortsFlag fl)) of
                         Inl err \<Rightarrow> Inl (ErrorParsingDestPorts err)
                       | Inr destPorts \<Rightarrow>
                           if length destPorts \<noteq> length ports
                           then Inl (PortCountMismatch (length destPorts) (length ports))
                           else Inr \<lparr>cfg_ifaces = ifaceNames, cfg_groups = groupStrs,
                                     cfg_ports = ports, cfg_destPorts = destPorts,
                                     cfg_verbose = verboseFlag fl\<rparr>)
                    else Inr \<lparr>cfg_ifaces = ifaceNames, cfg_groups = groupStrs,
                              cfg_ports = ports, cfg_destPorts = ports,
                              cfg_verbose = verboseFlag fl\<rparr>)))"

section \<open>The net package and the state of the process\<close>

text \<open>
  A \<open>net.IP\<close> is a byte slice, \<open>nil\<close> being the empty one; an address of an interface
  is a \<open>*net.IPNet\<close>, a \<open>*net.IPAddr\<close> or of another type.
\<close>

type_synonym ip = "nat list"

datatype addr = IPNet ip | IPAddr ip | OtherAddr

record iface =
  ifIndex :: nat
  ifName :: gostring

record udpaddr =
  addrIP :: ip
  addrPort :: int

text \<open>A \<open>*net.UDPConn\<close> is the address of the connection object; \<open>None\<close> is \<open>nil\<close>.\<close>

type_synonym conn = nat

type_synonym registry = "conn option list list list"

datatype signal = SIGINT | SIGTERM

datatype logline =
    Joined gostring gostring int gostring int
  | GoroutineExiting gostring gostring int
  | ReadError gostring gostring int goerr
  | ForwardError gostring gostring gostring int goerr
  | Forwarded nat ip int gostring gostring int
  | Received nat udpaddr gostring gostring int
  | ReceivedSignal signal
  | AllDone
  | FatalLine fatal

text \<open>
  What the process does to the outside, in the order in which it does it. A call that
  creates a socket is recorded with its result, the error or the new connection.
\<close>

datatype event =
    EListen gostring int gostring "goerr + conn"
  | ESetReadBuffer conn nat
  | EDial gostring gostring gostring int "goerr + conn"
  | ELog logline
  | EGo nat nat nat
  | ENotify
  | ESetReadDeadline conn
  | ERead conn
  | EWrite conn "nat list"
  | EClose conn

text \<open>
  The operating system behind package \<open>net\<close>. The answer to a call may depend on when it
  is made: every call takes the number of calls made before it. \<open>ParseIP\<close> is a pure
  function of its argument.
\<close>

record netenv =
  ParseIP :: "gostring \<Rightarrow> ip"
  InterfaceByName :: "nat \<Rightarrow> gostring \<Rightarrow> goerr + iface"
  Addrs :: "nat \<Rightarrow> iface \<Rightarrow> goerr + addr list"
  ListenMulticastUDP :: "nat \<Rightarrow> iface \<Rightarrow> udpaddr \<Rightarrow> goerr option"
  DialUDP :: "nat \<Rightarrow> udpaddr \<Rightarrow> udpaddr \<Rightarrow> goerr option"

record proc =
  clock :: nat
  nextConn :: conn
  trace :: "event list"

definition tick :: "proc \<Rightarrow> proc" where
  "tick st = st\<lparr>clock := Suc (clock st)\<rparr>"

definition emit :: "event list \<Rightarrow> proc \<Rightarrow> proc" where
  "emit evs st = st\<lparr>trace := trace st @ evs\<rparr>"

definition newConn :: "proc \<Rightarrow> proc" where
  "newConn st = st\<lparr>nextConn := Suc (nextConn st)\<rparr>"

text \<open>
  How a sequential part of the program ends: it returns a value, it ends the process
  through \<open>log.Fatalf\<close> (the line is logged, the exit status is 1), or it panics on an
  index out of range.
\<close>

datatype 'a outcome = Ok 'a proc | Fatal fatal proc | Panic proc

definition fatalf :: "fatal \<Rightarrow> proc \<Rightarrow> 'a outcome" where
  "fatalf f st = Fatal f (emit [ELog (FatalLine f)] st)"

definition BufferLen :: nat where
  "BufferLen = 65535"

section \<open>firstIPv4Addr\<close>

text \<open>\<open>IP.To4\<close> and, for a four-byte address, \<open>IP.String\<close>.\<close>

definition To4 :: "ip \<Rightarrow> ip" where
  "To4 a =
     (if length a = 4 then a
      else if length a = 16 \<and> take 10 a = replicate 10 0 \<and> a ! 10 = 255 \<and> a ! 11 = 255
      then drop 12 a
      else [])"

fun itoa :: "nat \<Rightarrow> gostring" where
  "itoa n = (if n < 10 then [48 + n] else itoa (n div 10) @ [48 + n mod 10])"

declare itoa.simps [simp del]

definition ipString :: "ip \<Rightarrow> gostring" where
  "ipString a = itoa (a ! 0) @ [46] @ itoa (a ! 1) @ [46] @ itoa (a ! 2) @ [46] @ itoa (a ! 3)"

fun firstIPv4Addr_loop :: "addr list \<Rightarrow> gostring option" where
  "firstIPv4Addr_loop [] = None"
| "firstIPv4Addr_loop (a # addrs) =
     (let ip = (case a of IPNet v \<Rightarrow> v | IPAddr v \<Rightarrow> v | OtherAddr \<Rightarrow> [])
      in if ip = [] then firstIPv4Addr_loop addrs
         else
           (let ipv4 = To4 ip
            in if ipv4 \<noteq> [] then Some (ipString ipv4) else firstIPv4Addr_loop addrs))"

definition firstIPv4Addr :: "netenv \<Rightarrow> iface \<Rightarrow> proc \<Rightarrow> (goerr + gostring) \<times> proc" where
  "firstIPv4Addr net ifi st =
     (case Addrs net (clock st) ifi of
        Inl err \<Rightarrow> (Inl err, tick st)
      | Inr addrs \<Rightarrow>
          (case firstIPv4Addr_loop addrs of
             Some s \<Rightarrow> (Inr s, tick st)
           | None \<Rightarrow>
               (Inl (OtherError (str ''no IPv4 address found on interface '' @ ifName ifi)),
                tick st)))"

section \<open>initializeConnections\<close>

text \<open>The three-dimensional slices as \<open>make\<close> leaves them: every entry \<open>nil\<close>.\<close>

definition make3 :: "nat \<Rightarrow> nat \<Rightarrow> nat \<Rightarrow> registry" where
  "make3 numGroups numIfaces numPorts =
     replicate numGroups (replicate numIfaces (replicate numPorts None))"

definition set3 :: "registry \<Rightarrow> nat \<Rightarrow> nat \<Rightarrow> nat \<Rightarrow> conn \<Rightarrow> registry" where
  "set3 a g i p c = a[g := (a ! g)[i := (a ! g ! i)[p := Some c]]]"

type_synonym regs = "registry \<times> registry"

text \<open>
  The body of the loop over the ports, for group \<open>g\<close>, interface \<open>i\<close> and port index
  \<open>p\<close>: the listening socket, its read buffer, the sending socket, the two entries of
  the registry and the log line. The connection objects are allocated one after the
  other, so each is new.
\<close>

definition ports_body ::
  "netenv \<Rightarrow> nat \<times> gostring \<times> ip \<Rightarrow> nat \<times> gostring \<times> iface \<times> gostring \<Rightarrow>
   int list \<Rightarrow> nat \<Rightarrow> int \<Rightarrow> regs \<Rightarrow> proc \<Rightarrow> regs outcome" where
  "ports_body net gc ic destPorts p port rs st =
     (case gc of (g, grp, mcastIP) \<Rightarrow>
      case ic of (i, ifname, ifi, localIP) \<Rightarrow>
      case rs of (conns, senders) \<Rightarrow>
        (let maddr = \<lparr>addrIP = mcastIP, addrPort = port\<rparr>
         in case ListenMulticastUDP net (clock st) ifi maddr of
              Some err \<Rightarrow>
                fatalf (FailedToListen grp port ifname err)
                  (emit [EListen grp port ifname (Inl err)] (tick st))
            | None \<Rightarrow>
                (let lconn = nextConn st;
                     st1 = emit [EListen grp port ifname (Inr lconn),
                                 ESetReadBuffer lconn BufferLen] (newConn (tick st))
                 in if \<not> p < length destPorts then Panic st1
                    else
                      (let destPort = destPorts ! p;
                           destAddr = \<lparr>addrIP = mcastIP, addrPort = destPort\<rparr>;
                           localAddr = \<lparr>addrIP = ParseIP net localIP, addrPort = 0\<rparr>
                       in case DialUDP net (clock st1) localAddr destAddr of
                            Some err \<Rightarrow>
                              fatalf (CouldNotCreateSender grp ifname localIP destPort err)
                                (emit [EDial grp ifname localIP destPort (Inl err)] (tick st1))
                          | None \<Rightarrow>
                              (let senderConn = nextConn st1;
                                   st2 = emit [EDial grp ifname localIP destPort (Inr senderConn)]
                                           (newConn (tick st1))
                               in Ok (set3 conns g i p lconn, set3 senders g i p senderConn)
                                     (emit [ELog (Joined grp ifname port localIP destPort)] st2))))))"

fun ports_loop ::
  "netenv \<Rightarrow> nat \<times> gostring \<times> ip \<Rightarrow> nat \<times> gostring \<times> iface \<times> gostring \<Rightarrow>
   int list \<Rightarrow> nat \<Rightarrow> int list \<Rightarrow> regs \<Rightarrow> proc \<Rightarrow> regs outcome" where
  "ports_loop net gc ic destPorts p [] rs st = Ok rs st"
| "ports_loop net gc ic destPorts p (port # rest) rs st =
     (case ports_body net gc ic destPorts p port rs st of
        Ok rs' st' \<Rightarrow> ports_loop net gc ic destPorts (Suc p) rest rs' st'
      | Fatal f st' \<Rightarrow> Fatal f st'
      | Panic st' \<Rightarrow> Panic st')"

definition ifaces_body ::
  "netenv \<Rightarrow> nat \<times> gostring \<times> ip \<Rightarrow> int list \<Rightarrow> int list \<Rightarrow> nat \<Rightarrow> gostring \<Rightarrow>
   regs \<Rightarrow> proc \<Rightarrow> regs outcome" where
  "ifaces_body net gc ports destPorts i ifname rs st =
     (case InterfaceByName net (clock st) ifname of
        Inl err \<Rightarrow> fatalf (CouldNotFindInterface ifname err) (tick st)
      | Inr ifi \<Rightarrow>
          (case firstIPv4Addr net ifi (tick st) of
             (Inl err, st1) \<Rightarrow> fatalf (CouldNotDetermineIPv4 ifname err) st1
           | (Inr localIP, st1) \<Rightarrow>
               ports_loop net gc (i, ifname, ifi, localIP) destPorts 0 ports rs st1))"

fun ifaces_loop ::
  "netenv \<Rightarrow> nat \<times> gostring \<times> ip \<Rightarrow> int list \<Rightarrow> int list \<Rightarrow> nat \<Rightarrow> gostring list \<Rightarrow>
   regs \<Rightarrow> proc \<Rightarrow> regs outcome" where
  "ifaces_loop net gc ports destPorts i [] rs st = Ok rs st"
| "ifaces_loop net gc ports destPorts i (ifname # rest) rs st =
     (case ifaces_body net gc ports destPorts i ifname rs st of
        Ok rs' st' \<Rightarrow> ifaces_loop net gc ports destPorts (Suc i) rest rs' st'
      | Fatal f st' \<Rightarrow> Fatal f st'
      | Panic st' \<Rightarrow> Panic st')"

definition groups_body ::
  "netenv \<Rightarrow> gostring list \<Rightarrow> int list \<Rightarrow> int list \<Rightarrow> nat \<Rightarrow> gostring \<Rightarrow>
   regs \<Rightarrow> proc \<Rightarrow> regs outcome" where
  "groups_body net ifaces ports destPorts g grp rs st =
     (let mcastIP = ParseIP net grp
      in if mcastIP = [] then fatalf (FailedToParseGroup grp) st
         else ifaces_loop net (g, grp, mcastIP) ports destPorts 0 ifaces rs st)"

fun groups_loop ::
  "netenv \<Rightarrow> gostring list \<Rightarrow> int list \<Rightarrow> int list \<Rightarrow> nat \<Rightarrow> gostring list \<Rightarrow>
   regs \<Rightarrow> proc \<Rightarrow> regs outcome" where
  "groups_loop net ifaces ports destPorts g [] rs st = Ok rs st"
| "groups_loop net ifaces ports destPorts g (grp # rest) rs st =
     (case groups_body net ifaces ports destPorts g grp rs st of
        Ok rs' st' \<Rightarrow> groups_loop net ifaces ports destPorts (Suc g) rest rs' st'
      | Fatal f st' \<Rightarrow> Fatal f st'
      | Panic st' \<Rightarrow> Panic st')"

definition initializeConnections ::
  "netenv \<Rightarrow> gostring list \<Rightarrow> gostring list \<Rightarrow> int list \<Rightarrow> int list \<Rightarrow> proc \<Rightarrow>
   regs outcome" where
  "initializeConnections net groups ifaces ports destPorts st =
     (let numGroups = length groups;
          numIfaces = length ifaces;
          numPorts = length ports;
          conns = make3 numGroups numIfaces numPorts;
          senders = make3 numGroups numIfaces numPorts
      in groups_loop net ifaces ports destPorts 0 groups (conns, senders) st)"

text \<open>\<open>main\<close> up to the return of \<open>initializeConnections\<close>.\<close>

definition main_start :: "netenv \<Rightarrow> flags \<Rightarrow> proc \<Rightarrow> (config \<times> regs) outcome" where
  "main_start net fl st =
     (case main_config fl of
        Inl f \<Rightarrow> fatalf f st
      | Inr cfg \<Rightarrow>
          (case initializeConnections net (cfg_groups cfg) (cfg_ifaces cfg) (cfg_ports cfg)
                  (cfg_destPorts cfg) st of
             Ok rs st' \<Rightarrow> Ok (cfg, rs) st'
           | Fatal f st' \<Rightarrow> Fatal f st'
           | Panic st' \<Rightarrow> Panic st'))"

definition proc0 :: proc where
  "proc0 = \<lparr>clock = 0, nextConn = 0, trace = []\<rparr>"

section \<open>The forwarding goroutines\<close>

text \<open>
  What the goroutines share: the variables of \<open>main\<close> that the closure of
  \<open>startForwarding\<close> captures. Nothing writes to them once the goroutines run.
\<close>

record shared =
  sh_conns :: registry
  sh_senders :: registry
  sh_groups :: "gostring list"
  sh_ifaces :: "gostring list"
  sh_ports :: "int list"
  sh_destPorts :: "int list"
  sh_verbose :: bool

text \<open>Indexing a slice: \<open>None\<close> is the run-time panic on an index out of range.\<close>

definition at :: "'a list \<Rightarrow> nat \<Rightarrow> 'a option" where
  "at xs i = (if i < length xs then Some (xs ! i) else None)"

definition at3 :: "'a list list list \<Rightarrow> nat \<Rightarrow> nat \<Rightarrow> nat \<Rightarrow> 'a option" where
  "at3 a g i p =
     (case at a g of
        None \<Rightarrow> None
      | Some row \<Rightarrow> (case at row i of None \<Rightarrow> None | Some cell \<Rightarrow> at cell p))"

text \<open>
  What \<open>ReadFromUDP\<close> answers: a datagram with its source, or an error. What the
  operating system answers to a goroutine's call: nothing (the step makes no call), the
  result of a read, or the error of a write (\<open>None\<close> when it succeeded).
\<close>

datatype readres = ReadOk "nat list" udpaddr | ReadErr goerr

datatype reply = NoReply | ReadReply readres | WriteReply "goerr option"

text \<open>
  Where a goroutine stands: before its first statement, at the \<open>select\<close>, at the read,
  in the loop over the interfaces with the packet, its source and \<open>otherIfIdx\<close>, after
  its return, or in a panic.
\<close>

datatype wpc = AtStart | AtSelect | AtRead | AtForward "nat list" udpaddr nat | Done | Panicked

record worker =
  gIdx :: nat
  iIdx :: nat
  pIdx :: nat
  pc :: wpc
  buf :: "nat list"
  lconn :: "conn option"
  wgroup :: gostring
  wport :: int
  ifaceName :: gostring

definition isTimeout :: "goerr \<Rightarrow> bool" where
  "isTimeout err = (case err of OpError t m \<Rightarrow> t | OtherError m \<Rightarrow> False)"

text \<open>
  The log line after a write in the loop over the interfaces: the error, or in verbose
  mode the success. \<open>None\<close> is the panic of an index out of range in its arguments.
\<close>

definition forward_log ::
  "shared \<Rightarrow> worker \<Rightarrow> nat list \<Rightarrow> udpaddr \<Rightarrow> nat \<Rightarrow> goerr option \<Rightarrow> event list option" where
  "forward_log sh w packet src otherIfIdx werr =
     (case werr of
        Some err \<Rightarrow>
          (case (at (sh_ifaces sh) (iIdx w), at (sh_ifaces sh) otherIfIdx,
                 at (sh_destPorts sh) (pIdx w)) of
             (Some from, Some to, Some destPort) \<Rightarrow>
               Some [ELog (ForwardError (wgroup w) from to destPort err)]
           | _ \<Rightarrow> None)
      | None \<Rightarrow>
          if sh_verbose sh then
            (case (at (sh_ifaces sh) (iIdx w), at (sh_ifaces sh) otherIfIdx,
                   at (sh_destPorts sh) (pIdx w)) of
               (Some from, Some to, Some destPort) \<Rightarrow>
                 Some [ELog (Forwarded (length packet) (addrIP src) (addrPort src)
                               from to destPort)]
             | _ \<Rightarrow> None)
          else Some [])"

text \<open>
  One step of the goroutine of \<open>startForwarding\<close>. \<open>cancelled\<close> says whether
  \<open>ctx.Done()\<close> is closed; the reply is what the operating system answers to the call
  the step makes. \<open>None\<close>: the reply is not one for this step. A method called on a
  \<open>nil\<close> connection dereferences it: the goroutine panics before any call is made.
\<close>

definition worker_step ::
  "shared \<Rightarrow> bool \<Rightarrow> reply \<Rightarrow> worker \<Rightarrow> (worker \<times> event list) option" where
  "worker_step sh cancelled r w =
     (case pc w of
        AtStart \<Rightarrow>
          (if r \<noteq> NoReply then None
           else
             (case (at3 (sh_conns sh) (gIdx w) (iIdx w) (pIdx w), at (sh_groups sh) (gIdx w),
                    at (sh_ports sh) (pIdx w), at (sh_ifaces sh) (iIdx w)) of
                (Some c, Some g, Some p, Some n) \<Rightarrow>
                  Some (w\<lparr>pc := AtSelect, buf := replicate BufferLen 0, lconn := c,
                           wgroup := g, wport := p, ifaceName := n\<rparr>, [])
              | _ \<Rightarrow> Some (w\<lparr>pc := Panicked\<rparr>, [])))
      | AtSelect \<Rightarrow>
          (if r \<noteq> NoReply then None
           else if cancelled then
             Some (w\<lparr>pc := Done\<rparr>,
                   if sh_verbose sh
                   then [ELog (GoroutineExiting (wgroup w) (ifaceName w) (wport w))] else [])
           else Some (w\<lparr>pc := AtRead\<rparr>, []))
      | AtRead \<Rightarrow>
          (case lconn w of
             None \<Rightarrow> if r \<noteq> NoReply then None else Some (w\<lparr>pc := Panicked\<rparr>, [])
           | Some c \<Rightarrow>
               (case r of
                  ReadReply (ReadErr err) \<Rightarrow>
                    if isTimeout err
                    then Some (w\<lparr>pc := AtSelect\<rparr>, [ESetReadDeadline c, ERead c])
                    else Some (w\<lparr>pc := Done\<rparr>,
                               [ESetReadDeadline c, ERead c,
                                ELog (ReadError (wgroup w) (ifaceName w) (wport w) err)])
                | ReadReply (ReadOk d src) \<Rightarrow>
                    (let n = min (length d) (length (buf w));
                         buf' = take n d @ drop n (buf w);
                         packet = take n buf'
                     in Some (w\<lparr>pc := AtForward packet src 0, buf := buf'\<rparr>,
                              [ESetReadDeadline c, ERead c]))
                | _ \<Rightarrow> None))
      | AtForward packet src otherIfIdx \<Rightarrow>
          (if \<not> otherIfIdx < length (sh_ifaces sh) then
             (if r \<noteq> NoReply then None
              else Some (w\<lparr>pc := AtSelect\<rparr>,
                         if sh_verbose sh
                         then [ELog (Received (length packet) src (wgroup w) (ifaceName w)
                                       (wport w))]
                         else []))
           else if otherIfIdx = iIdx w then
             (if r \<noteq> NoReply then None
              else Some (w\<lparr>pc := AtForward packet src (Suc otherIfIdx)\<rparr>, []))
           else
             (case at3 (sh_senders sh) (gIdx w) otherIfIdx (pIdx w) of
                None \<Rightarrow> if r \<noteq> NoReply then None else Some (w\<lparr>pc := Panicked\<rparr>, [])
              | Some None \<Rightarrow> if r \<noteq> NoReply then None else Some (w\<lparr>pc := Panicked\<rparr>, [])
              | Some (Some senderConn) \<Rightarrow>
                  (case r of
                     WriteReply werr \<Rightarrow>
                       (case forward_log sh w packet src otherIfIdx werr of
                          None \<Rightarrow> Some (w\<lparr>pc := Panicked\<rparr>, [EWrite senderConn packet])
                        | Some evs \<Rightarrow>
                            Some (w\<lparr>pc := AtForward packet src (Suc otherIfIdx)\<rparr>,
                                  EWrite senderConn packet # evs))
                   | _ \<Rightarrow> None)))
      | Done \<Rightarrow> None
      | Panicked \<Rightarrow> None)"

text \<open>A goroutine run on its own, one reply for each of its steps.\<close>

fun worker_run ::
  "shared \<Rightarrow> bool \<Rightarrow> worker \<Rightarrow> reply list \<Rightarrow> (worker \<times> event list) option" where
  "worker_run sh cancelled w [] = Some (w, [])"
| "worker_run sh cancelled w (r # rs) =
     (case worker_step sh cancelled r w of
        None \<Rightarrow> None
      | Some (w', evs) \<Rightarrow>
          (case worker_run sh cancelled w' rs of
             None \<Rightarrow> None
           | Some (w'', evs') \<Rightarrow> Some (w'', evs @ evs')))"

section \<open>closeConnections\<close>

datatype closeop = CloseOp conn | PanicOp

definition close_cell :: "registry \<Rightarrow> registry \<Rightarrow> nat \<Rightarrow> nat \<Rightarrow> nat \<Rightarrow> closeop list" where
  "close_cell cs ss g i p =
     (case cs ! g ! i ! p of None \<Rightarrow> [] | Some c \<Rightarrow> [CloseOp c]) @
     (case at3 ss g i p of
        None \<Rightarrow> [PanicOp]
      | Some None \<Rightarrow> []
      | Some (Some c) \<Rightarrow> [CloseOp c])"

fun until_panic :: "closeop list \<Rightarrow> closeop list" where
  "until_panic [] = []"
| "until_panic (PanicOp # ops) = [PanicOp]"
| "until_panic (CloseOp c # ops) = CloseOp c # until_panic ops"

text \<open>
  The calls of \<open>Close\<close> that \<open>closeConnections\<close> makes, in its order: for every index of
  \<open>conns\<close> the listening connection, then the sending one, each when it is not \<open>nil\<close>. The
  list ends with a panic where \<open>senders\<close> has no such index.
\<close>

definition closeConnections :: "registry \<Rightarrow> registry \<Rightarrow> closeop list" where
  "closeConnections cs ss =
     until_panic
       (concat (map (\<lambda>g.
          concat (map (\<lambda>i.
            concat (map (\<lambda>p. close_cell cs ss g i p) [0..<length (cs ! g ! i)]))
            [0..<length (cs ! g)]))
          [0..<length cs]))"

section \<open>The process: main, the goroutines and the signal handler\<close>

text \<open>
  Where \<open>main\<close> stands after \<open>initializeConnections\<close>: in the loops of
  \<open>startForwarding\<close> with the triples still to start (when none is left, the next step
  is \<open>handleShutdown\<close>), in \<open>wg.Wait()\<close>, in \<open>closeConnections\<close> with the calls still to
  make (when none is left, the next step logs \<open>All done.\<close> and returns), gone with an
  exit status, or killed by a signal.
\<close>

datatype mainpc =
    MStartForwarding "(nat \<times> nat \<times> nat) list"
  | MWait
  | MCloseConnections "closeop list"
  | MExited nat
  | MKilled signal

text \<open>
  The goroutine of \<open>handleShutdown\<close>: not started, waiting on \<open>sigChan\<close>, holding the
  signal it received, after its log line, after \<open>cancel()\<close>.
\<close>

datatype handlerpc = HIdle | HWaiting | HReceived signal | HLogged | HDone

record sys =
  s_shared :: shared
  s_trace :: "event list"
  s_main :: mainpc
  s_workers :: "worker list"
  s_wg :: nat
  s_cancelled :: bool
  s_sigchan :: "signal option"
  s_handler :: handlerpc

text \<open>
  Who moves next: \<open>main\<close>, the goroutine started as number \<open>k\<close> with the reply to its
  call, the handler goroutine, or the operating system delivering a signal to the
  process.
\<close>

datatype action = MainStep | WorkerStep nat reply | HandlerStep | Signal signal

definition triples :: "'a list \<Rightarrow> 'b list \<Rightarrow> 'c list \<Rightarrow> (nat \<times> nat \<times> nat) list" where
  "triples gs is ps =
     concat (map (\<lambda>g. concat (map (\<lambda>i. map (\<lambda>p. (g, i, p)) [0..<length ps])
                                    [0..<length is]))
                 [0..<length gs])"

definition new_worker :: "nat \<times> nat \<times> nat \<Rightarrow> worker" where
  "new_worker t =
     (case t of (g, i, p) \<Rightarrow>
        \<lparr>gIdx = g, iIdx = i, pIdx = p, pc = AtStart, buf = [], lconn = None,
         wgroup = [], wport = 0, ifaceName = []\<rparr>)"

definition main_step :: "sys \<Rightarrow> sys option" where
  "main_step s =
     (case s_main s of
        MStartForwarding (t # ts) \<Rightarrow>
          Some (s\<lparr>s_wg := Suc (s_wg s),
                  s_workers := s_workers s @ [new_worker t],
                  s_trace := s_trace s @ [case t of (g, i, p) \<Rightarrow> EGo g i p],
                  s_main := MStartForwarding ts\<rparr>)
      | MStartForwarding [] \<Rightarrow>
          Some (s\<lparr>s_handler := HWaiting, s_trace := s_trace s @ [ENotify], s_main := MWait\<rparr>)
      | MWait \<Rightarrow>
          if s_wg s = 0
          then Some (s\<lparr>s_main := MCloseConnections
                               (closeConnections (sh_conns (s_shared s))
                                  (sh_senders (s_shared s)))\<rparr>)
          else None
      | MCloseConnections (CloseOp c # ops) \<Rightarrow>
          Some (s\<lparr>s_trace := s_trace s @ [EClose c], s_main := MCloseConnections ops\<rparr>)
      | MCloseConnections (PanicOp # ops) \<Rightarrow> Some (s\<lparr>s_main := MExited 2\<rparr>)
      | MCloseConnections [] \<Rightarrow>
          Some (s\<lparr>s_trace := s_trace s @ [ELog AllDone], s_main := MExited 0\<rparr>)
      | MExited status \<Rightarrow> None
      | MKilled sig \<Rightarrow> None)"

definition handler_step :: "sys \<Rightarrow> sys option" where
  "handler_step s =
     (case s_handler s of
        HIdle \<Rightarrow> None
      | HWaiting \<Rightarrow>
          (case s_sigchan s of
             None \<Rightarrow> None
           | Some sig \<Rightarrow> Some (s\<lparr>s_sigchan := None, s_handler := HReceived sig\<rparr>))
      | HReceived sig \<Rightarrow>
          Some (s\<lparr>s_trace := s_trace s @ [ELog (ReceivedSignal sig)], s_handler := HLogged\<rparr>)
      | HLogged \<Rightarrow> Some (s\<lparr>s_cancelled := True, s_handler := HDone\<rparr>)
      | HDone \<Rightarrow> None)"

text \<open>
  A goroutine's step inside the process. Its return runs the deferred \<open>wg.Done()\<close>; its
  panic ends the process with status 2.
\<close>

definition goroutine_step :: "nat \<Rightarrow> reply \<Rightarrow> sys \<Rightarrow> sys option" where
  "goroutine_step k r s =
     (if \<not> k < length (s_workers s) then None
      else
        (case worker_step (s_shared s) (s_cancelled s) r (s_workers s ! k) of
           None \<Rightarrow> None
         | Some (w', evs) \<Rightarrow>
             Some (s\<lparr>s_workers := (s_workers s)[k := w'],
                     s_trace := s_trace s @ evs,
                     s_wg := (if pc w' = Done then s_wg s - 1 else s_wg s),
                     s_main := (if pc w' = Panicked then MExited 2 else s_main s)\<rparr>)))"

text \<open>
  A \<open>SIGINT\<close> or \<open>SIGTERM\<close> arrives. Before \<open>signal.Notify\<close> has been called in
  \<open>handleShutdown\<close> the Go run time lets the signal kill the process: nothing is
  cancelled, closed or logged. After it the signal is sent to \<open>sigChan\<close>, whose buffer
  holds one signal; it is dropped when the buffer is full. The start-up is one step of
  this model: a signal during the start-up is the signal right after it.
\<close>

definition signal_step :: "signal \<Rightarrow> sys \<Rightarrow> sys option" where
  "signal_step sig s =
     (if s_handler s = HIdle then Some (s\<lparr>s_main := MKilled sig\<rparr>)
      else if s_sigchan s = None then Some (s\<lparr>s_sigchan := Some sig\<rparr>)
      else Some s)"

definition exited :: "sys \<Rightarrow> bool" where
  "exited s = (case s_main s of MExited status \<Rightarrow> True | MKilled sig \<Rightarrow> True | _ \<Rightarrow> False)"

definition sys_step :: "sys \<Rightarrow> action \<Rightarrow> sys option" where
  "sys_step s a =
     (if exited s then None
      else
        (case a of
           MainStep \<Rightarrow> main_step s
         | WorkerStep k r \<Rightarrow> goroutine_step k r s
         | HandlerStep \<Rightarrow> handler_step s
         | Signal sig \<Rightarrow> signal_step sig s))"

fun exec :: "sys \<Rightarrow> action list \<Rightarrow> sys option" where
  "exec s [] = Some s"
| "exec s (a # as) = (case sys_step s a of None \<Rightarrow> None | Some s' \<Rightarrow> exec s' as)"

text \<open>
  The process when \<open>initializeConnections\<close> has returned, and the process that
  \<open>log.Fatalf\<close> or a panic has ended before that.
\<close>

definition init_sys :: "config \<Rightarrow> regs \<Rightarrow> proc \<Rightarrow> sys" where
  "init_sys cfg rs st =
     \<lparr>s_shared = \<lparr>sh_conns = fst rs, sh_senders = snd rs, sh_groups = cfg_groups cfg,
                  sh_ifaces = cfg_ifaces cfg, sh_ports = cfg_ports cfg,
                  sh_destPorts = cfg_destPorts cfg, sh_verbose = cfg_verbose cfg\<rparr>,
      s_trace = trace st,
      s_main = MStartForwarding (triples (cfg_groups cfg) (cfg_ifaces cfg) (cfg_ports cfg)),
      s_workers = [], s_wg = 0, s_cancelled = False, s_sigchan = None, s_handler = HIdle\<rparr>"

definition dead_sys :: "nat \<Rightarrow> proc \<Rightarrow> sys" where
  "dead_sys status st =
     \<lparr>s_shared = \<lparr>sh_conns = [], sh_senders = [], sh_groups = [], sh_ifaces = [],
                  sh_ports = [], sh_destPorts = [], sh_verbose = False\<rparr>,
      s_trace = trace st, s_main = MExited status,
      s_workers = [], s_wg = 0, s_cancelled = False, s_sigchan = None, s_handler = HIdle\<rparr>"

definition boot :: "netenv \<Rightarrow> flags \<Rightarrow> sys" where
  "boot net fl =
     (case main_start net fl proc0 of
        Ok (cfg, rs) st \<Rightarrow> init_sys cfg rs st
      | Fatal f st \<Rightarrow> dead_sys 1 st
      | Panic st \<Rightarrow> dead_sys 2 st)"

text \<open>A run of the whole program under a schedule.\<close>

definition run :: "netenv \<Rightarrow> flags \<Rightarrow> action list \<Rightarrow> sys option" where
  "run net fl acts = exec (boot net fl) acts"

section \<open>Properties of the registry\<close>

text \<open>
  A registry of the shape the three \<open>make\<close> loops give it, and the connection it
  holds at a triple of indices: \<open>None\<close> where the pointer is \<open>nil\<close> or an index is out
  of range.
\<close>

definition shape3 :: "registry \<Rightarrow> nat \<Rightarrow> nat \<Rightarrow> nat \<Rightarrow> bool" where
  "shape3 a G I P \<longleftrightarrow>
     length a = G \<and> (\<forall>g < G. length (a ! g) = I \<and> (\<forall>i < I. length (a ! g ! i) = P))"

definition entry :: "registry \<Rightarrow> nat \<times> nat \<times> nat \<Rightarrow> conn option" where
  "entry a t = (case t of (g, i, p) \<Rightarrow> (case at3 a g i p of Some (Some c) \<Rightarrow> Some c | _ \<Rightarrow> None))"

text \<open>
  Of a pair of registries: every connection is one that has been handed out, no
  connection stands at two places, both registries hold a connection at a triple, and
  one pair holds a connection wherever another does.
\<close>

definition bounded :: "regs \<Rightarrow> nat \<Rightarrow> bool" where
  "bounded rs n \<longleftrightarrow>
     (\<forall>t c. entry (fst rs) t = Some c \<or> entry (snd rs) t = Some c \<longrightarrow> c < n)"

definition inj_regs :: "regs \<Rightarrow> bool" where
  "inj_regs rs \<longleftrightarrow>
     (\<forall>t t' c. entry (fst rs) t = Some c \<and> entry (fst rs) t' = Some c \<longrightarrow> t = t') \<and>
     (\<forall>t t' c. entry (snd rs) t = Some c \<and> entry (snd rs) t' = Some c \<longrightarrow> t = t') \<and>
     (\<forall>t t' c. entry (fst rs) t = Some c \<longrightarrow> entry (snd rs) t' \<noteq> Some c)"

definition sound :: "regs \<Rightarrow> proc \<Rightarrow> nat \<Rightarrow> nat \<Rightarrow> nat \<Rightarrow> bool" where
  "sound rs st G I P \<longleftrightarrow>
     shape3 (fst rs) G I P \<and> shape3 (snd rs) G I P \<and> bounded rs (nextConn st) \<and> inj_regs rs"

definition covers :: "regs \<Rightarrow> nat \<times> nat \<times> nat \<Rightarrow> bool" where
  "covers rs t \<longleftrightarrow> entry (fst rs) t \<noteq> None \<and> entry (snd rs) t \<noteq> None"

definition grows :: "regs \<Rightarrow> regs \<Rightarrow> bool" where
  "grows rs rs' \<longleftrightarrow> (\<forall>t. covers rs t \<longrightarrow> covers rs' t)"

text \<open>
  The events of the start-up: those of a step that succeeded, the failed call behind a
  fatal error, and how the trace of an outcome continues a trace \<open>t0\<close>: by events of
  successful steps, then, for \<open>log.Fatalf\<close>, by the failed call and the logged line.
\<close>

fun prov_ok :: "event \<Rightarrow> bool" where
  "prov_ok (EListen g p i r) = (case r of Inl e \<Rightarrow> False | Inr c \<Rightarrow> True)"
| "prov_ok (ESetReadBuffer c n) = True"
| "prov_ok (EDial g i l d r) = (case r of Inl e \<Rightarrow> False | Inr c \<Rightarrow> True)"
| "prov_ok (ELog ll) = (case ll of Joined g i p l d \<Rightarrow> True | _ \<Rightarrow> False)"
| "prov_ok e = False"

definition failure_events :: "fatal \<Rightarrow> event list" where
  "failure_events f =
     (case f of
        FailedToListen g p i e \<Rightarrow> [EListen g p i (Inl e)]
      | CouldNotCreateSender g i l d e \<Rightarrow> [EDial g i l d (Inl e)]
      | _ \<Rightarrow> [])"

definition extends_by :: "event list \<Rightarrow> 'a outcome \<Rightarrow> event list \<Rightarrow> bool" where
  "extends_by t0 out evs \<longleftrightarrow>
     list_all prov_ok evs \<and>
     (case out of
        Ok x st' \<Rightarrow> trace st' = t0 @ evs
      | Fatal f st' \<Rightarrow> trace st' = t0 @ evs @ failure_events f @ [ELog (FatalLine f)]
      | Panic st' \<Rightarrow> trace st' = t0 @ evs)"

text \<open>
  The fatal errors of the checks \<open>main\<close> makes on its flags, and flags whose lists of
  ports differ in length.
\<close>

fun config_error :: "fatal \<Rightarrow> bool" where
  "config_error NoInterfacesSpecified = True"
| "config_error NoPortsSpecified = True"
| "config_error NoGroupsSpecified = True"
| "config_error (ErrorParsingPorts e) = True"
| "config_error (ErrorParsingDestPorts e) = True"
| "config_error (PortCountMismatch n m) = True"
| "config_error f = False"

definition flags_mismatch :: flags where
  "flags_mismatch = \<lparr>ifacesFlag = str ''eth0,eth1'', portsFlag = str ''1900,1990'',
     groupsFlag = str ''239.255.255.250'', destPortsFlag = str ''2021'', verboseFlag = False\<rparr>"

text \<open>
  A non-empty string of commas and white space only.
\<close>

definition commaSpaceOnly :: "gostring \<Rightarrow> bool" where
  "commaSpaceOnly s \<longleftrightarrow> s \<noteq> [] \<and> list_all (\<lambda>r. r = comma \<or> IsSpace r) s"

section \<open>One datagram in one goroutine\<close>

text \<open>
  What the goroutines rely on in the data they share, as \<open>initializeConnections\<close>
  leaves it, and a goroutine whose indices are indices of the three lists.
\<close>

definition wf_shared :: "shared \<Rightarrow> bool" where
  "wf_shared sh \<longleftrightarrow>
     shape3 (sh_conns sh) (length (sh_groups sh)) (length (sh_ifaces sh)) (length (sh_ports sh)) \<and>
     shape3 (sh_senders sh) (length (sh_groups sh)) (length (sh_ifaces sh)) (length (sh_ports sh)) \<and>
     (\<forall>g < length (sh_groups sh). \<forall>i < length (sh_ifaces sh). \<forall>p < length (sh_ports sh).
        covers (sh_conns sh, sh_senders sh) (g, i, p)) \<and>
     inj_regs (sh_conns sh, sh_senders sh) \<and>
     length (sh_destPorts sh) = length (sh_ports sh)"

definition in_range :: "shared \<Rightarrow> worker \<Rightarrow> bool" where
  "in_range sh w \<longleftrightarrow>
     gIdx w < length (sh_groups sh) \<and> iIdx w < length (sh_ifaces sh) \<and>
     pIdx w < length (sh_ports sh)"

text \<open>
  For one datagram read by a goroutine: the writes in a trace, the replies of the
  operating system to the loop over the interfaces when \<open>wr j\<close> is the result of the
  write to interface \<open>j\<close>, the events of the iteration for \<open>j\<close>, the line logged
  after the loop, and the interfaces other than the goroutine's own.
\<close>

definition sender_of :: "shared \<Rightarrow> worker \<Rightarrow> nat \<Rightarrow> conn" where
  "sender_of sh w j = the (entry (sh_senders sh) (gIdx w, j, pIdx w))"

fun writes :: "event list \<Rightarrow> (conn \<times> nat list) list" where
  "writes [] = []"
| "writes (EWrite c packet # es) = (c, packet) # writes es"
| "writes (e # es) = writes es"

definition fanout_from :: "nat \<Rightarrow> (nat \<Rightarrow> goerr option) \<Rightarrow> nat \<Rightarrow> nat \<Rightarrow> reply list" where
  "fanout_from i wr j n =
     map (\<lambda>k. if k = i then NoReply else WriteReply (wr k)) [j..<n] @ [NoReply]"

definition fan_events ::
  "shared \<Rightarrow> worker \<Rightarrow> nat list \<Rightarrow> udpaddr \<Rightarrow> (nat \<Rightarrow> goerr option) \<Rightarrow> nat \<Rightarrow> event list" where
  "fan_events sh w packet src wr j =
     (if j = iIdx w then []
      else EWrite (sender_of sh w j) packet #
           (case wr j of
              Some err \<Rightarrow>
                [ELog (ForwardError (wgroup w) (sh_ifaces sh ! iIdx w) (sh_ifaces sh ! j)
                         (sh_destPorts sh ! pIdx w) err)]
            | None \<Rightarrow>
                if sh_verbose sh
                then [ELog (Forwarded (length packet) (addrIP src) (addrPort src)
                              (sh_ifaces sh ! iIdx w) (sh_ifaces sh ! j)
                              (sh_destPorts sh ! pIdx w))]
                else []))"

definition received_log :: "shared \<Rightarrow> worker \<Rightarrow> nat list \<Rightarrow> udpaddr \<Rightarrow> event list" where
  "received_log sh w packet src =
     (if sh_verbose sh
      then [ELog (Received (length packet) src (wgroup w) (ifaceName w) (wport w))] else [])"

definition datagram_replies ::
  "shared \<Rightarrow> worker \<Rightarrow> nat list \<Rightarrow> udpaddr \<Rightarrow> (nat \<Rightarrow> goerr option) \<Rightarrow> reply list" where
  "datagram_replies sh w d src wr =
     ReadReply (ReadOk d src) # fanout_from (iIdx w) wr 0 (length (sh_ifaces sh))"

definition peers :: "shared \<Rightarrow> worker \<Rightarrow> nat list" where
  "peers sh w = filter (\<lambda>j. j \<noteq> iIdx w) [0..<length (sh_ifaces sh)]"

section \<open>A network and three interfaces\<close>

text \<open>
  A network in which every call succeeds and every interface has the address 10.0.0.1,
  and a configuration of one group, three interfaces and one port with the state
  \<open>initializeConnections\<close> leaves.
\<close>

definition net_up :: netenv where
  "net_up = \<lparr>ParseIP = (\<lambda>s. if s = str ''239.255.255.250'' then [239, 255, 255, 250]
                            else if s = str ''10.0.0.1'' then [10, 0, 0, 1] else []),
             InterfaceByName = (\<lambda>t n. Inr \<lparr>ifIndex = 1, ifName = n\<rparr>),
             Addrs = (\<lambda>t i. Inr [IPNet [10, 0, 0, 1]]),
             ListenMulticastUDP = (\<lambda>t i a. None),
             DialUDP = (\<lambda>t l a. None)\<rparr>"

definition flags3 :: flags where
  "flags3 = \<lparr>ifacesFlag = str ''eth0,eth1,eth2'', portsFlag = str ''1900'',
     groupsFlag = str ''239.255.255.250'', destPortsFlag = [], verboseFlag = False\<rparr>"

definition config3 :: config where
  "config3 = \<lparr>cfg_ifaces = [str ''eth0'', str ''eth1'', str ''eth2''],
     cfg_groups = [str ''239.255.255.250''], cfg_ports = [1900],
     cfg_destPorts = [1900], cfg_verbose = False\<rparr>"

definition regs3 :: regs where
  "regs3 = ([[[Some 0], [Some 2], [Some 4]]], [[[Some 1], [Some 3], [Some 5]]])"

definition shared3 :: shared where
  "shared3 = \<lparr>sh_conns = fst regs3, sh_senders = snd regs3,
     sh_groups = [str ''239.255.255.250''],
     sh_ifaces = [str ''eth0'', str ''eth1'', str ''eth2''], sh_ports = [1900],
     sh_destPorts = [1900], sh_verbose = False\<rparr>"

definition worker3 :: worker where
  "worker3 = \<lparr>gIdx = 0, iIdx = 0, pIdx = 0, pc = AtRead, buf = replicate BufferLen 0,
     lconn = Some 0, wgroup = str ''239.255.255.250'', wport = 1900,
     ifaceName = str ''eth0''\<rparr>"

definition src3 :: udpaddr where
  "src3 = \<lparr>addrIP = [10, 0, 0, 9], addrPort = 1900\<rparr>"

definition unreachable :: goerr where
  "unreachable = OpError False (str ''network is unreachable'')"

section \<open>Traces and the invariant of the process\<close>

text \<open>
  Of a trace: the calls a goroutine makes on a connection, the connections closed in
  order, and that no call on a connection follows a \<open>Close\<close>.
\<close>

fun is_io :: "event \<Rightarrow> bool" where
  "is_io (ESetReadDeadline c) = True"
| "is_io (ERead c) = True"
| "is_io (EWrite c packet) = True"
| "is_io e = False"

fun closes :: "event list \<Rightarrow> conn list" where
  "closes [] = []"
| "closes (EClose c # es) = c # closes es"
| "closes (e # es) = closes es"

fun quiet_after_close :: "event list \<Rightarrow> bool" where
  "quiet_after_close [] = True"
| "quiet_after_close (EClose c # es) = (list_all (\<lambda>e. \<not> is_io e) es \<and> quiet_after_close es)"
| "quiet_after_close (e # es) = quiet_after_close es"

fun worker_ev :: "event \<Rightarrow> bool" where
  "worker_ev (ESetReadDeadline c) = True"
| "worker_ev (ERead c) = True"
| "worker_ev (EWrite c packet) = True"
| "worker_ev (ELog (GoroutineExiting g i p)) = True"
| "worker_ev (ELog (ReadError g i p e)) = True"
| "worker_ev (ELog (ForwardError g a b d e)) = True"
| "worker_ev (ELog (Forwarded n a b c d e)) = True"
| "worker_ev (ELog (Received n s g i p)) = True"
| "worker_ev e = False"

text \<open>
  The invariant of the process. The shared data is well formed; no goroutine has
  panicked and every goroutine past its first step holds a buffer of \<open>BufferLen\<close> bytes
  and the connection, group, port and interface of its triple; the wait group counts
  the goroutines that have not returned; the context is cancelled only by the handler;
  and, by the place \<open>main\<close> has reached, which goroutines exist, which connections
  have been closed, whether \<open>All done.\<close> has been logged and whether
  \<open>signal.Notify\<close> has been called.
\<close>

definition triple_of :: "worker \<Rightarrow> nat \<times> nat \<times> nat" where
  "triple_of w = (gIdx w, iIdx w, pIdx w)"

definition all_done :: "sys \<Rightarrow> bool" where
  "all_done s \<longleftrightarrow> (\<forall>w \<in> set (s_workers s). pc w = Done)"

definition all_triples :: "sys \<Rightarrow> (nat \<times> nat \<times> nat) list" where
  "all_triples s =
     triples (sh_groups (s_shared s)) (sh_ifaces (s_shared s)) (sh_ports (s_shared s))"

definition close_ops :: "sys \<Rightarrow> closeop list" where
  "close_ops s = closeConnections (sh_conns (s_shared s)) (sh_senders (s_shared s))"

definition started_ok :: "shared \<Rightarrow> worker \<Rightarrow> bool" where
  "started_ok sh w \<longleftrightarrow>
     (pc w \<noteq> AtStart \<and> pc w \<noteq> Panicked \<longrightarrow>
        length (buf w) = BufferLen \<and>
        lconn w = entry (sh_conns sh) (triple_of w) \<and>
        wgroup w = sh_groups sh ! gIdx w \<and>
        wport w = sh_ports sh ! pIdx w \<and>
        ifaceName w = sh_ifaces sh ! iIdx w)"

definition inv :: "sys \<Rightarrow> bool" where
  "inv s \<longleftrightarrow>
     wf_shared (s_shared s) \<and>
     (\<forall>w \<in> set (s_workers s). pc w \<noteq> Panicked \<and> started_ok (s_shared s) w) \<and>
     s_wg s = length (filter (\<lambda>w. pc w \<noteq> Done) (s_workers s)) \<and>
     quiet_after_close (s_trace s) \<and>
     (s_cancelled s \<longrightarrow> s_handler s = HDone) \<and>
     (case s_main s of
        MStartForwarding ts \<Rightarrow>
          closes (s_trace s) = [] \<and> ELog AllDone \<notin> set (s_trace s) \<and>
          map triple_of (s_workers s) @ ts = all_triples s \<and> s_handler s = HIdle
      | MWait \<Rightarrow>
          closes (s_trace s) = [] \<and> ELog AllDone \<notin> set (s_trace s) \<and>
          map triple_of (s_workers s) = all_triples s \<and>
          s_handler s \<noteq> HIdle \<and> ENotify \<in> set (s_trace s)
      | MCloseConnections ops \<Rightarrow>
          all_done s \<and> ELog AllDone \<notin> set (s_trace s) \<and>
          map CloseOp (closes (s_trace s)) @ ops = close_ops s \<and>
          map triple_of (s_workers s) = all_triples s \<and>
          s_handler s \<noteq> HIdle \<and> ENotify \<in> set (s_trace s)
      | MExited n \<Rightarrow>
          if n = 0
          then all_done s \<and> map CloseOp (closes (s_trace s)) = close_ops s \<and>
               s_trace s \<noteq> [] \<and> last (s_trace s) = ELog AllDone \<and>
               map triple_of (s_workers s) = all_triples s \<and>
               s_handler s \<noteq> HIdle \<and> ENotify \<in> set (s_trace s)
          else s_workers s = [] \<and> closes (s_trace s) = [] \<and>
               ELog AllDone \<notin> set (s_trace s) \<and> s_handler s = HIdle
      | MKilled sig \<Rightarrow>
          closes (s_trace s) = [] \<and> ELog AllDone \<notin> set (s_trace s) \<and>
          (\<exists>ts. map triple_of (s_workers s) @ ts = all_triples s) \<and> s_handler s = HIdle)"

text \<open>
  The events of \<open>initializeConnections\<close> and \<open>log.Fatalf\<close>; a network where the
  second \<open>net.DialUDP\<close> fails, with the state the process ends in.
\<close>

fun setup_ev :: "event \<Rightarrow> bool" where
  "setup_ev (EListen g p i r) = True"
| "setup_ev (ESetReadBuffer c n) = True"
| "setup_ev (EDial g i l d r) = True"
| "setup_ev (ELog (Joined g i p l d)) = True"
| "setup_ev (ELog (FatalLine f)) = True"
| "setup_ev e = False"



definition proc3 :: proc where
  "proc3 =
     \<lparr>clock = 12, nextConn = 6,
      trace =
        [EListen (str ''239.255.255.250'') 1900 (str ''eth0'') (Inr 0),
         ESetReadBuffer 0 BufferLen,
         EDial (str ''239.255.255.250'') (str ''eth0'') (str ''10.0.0.1'') 1900 (Inr 1),
         ELog (Joined (str ''239.255.255.250'') (str ''eth0'') 1900 (str ''10.0.0.1'') 1900),
         EListen (str ''239.255.255.250'') 1900 (str ''eth1'') (Inr 2),
         ESetReadBuffer 2 BufferLen,
         EDial (str ''239.255.255.250'') (str ''eth1'') (str ''10.0.0.1'') 1900 (Inr 3),
         ELog (Joined (str ''239.255.255.250'') (str ''eth1'') 1900 (str ''10.0.0.1'') 1900),
         EListen (str ''239.255.255.250'') 1900 (str ''eth2'') (Inr 4),
         ESetReadBuffer 4 BufferLen,
         EDial (str ''239.255.255.250'') (str ''eth2'') (str ''10.0.0.1'') 1900 (Inr 5),
         ELog (Joined (str ''239.255.255.250'') (str ''eth2'') 1900 (str ''10.0.0.1'') 1900)]\<rparr>"

section \<open>Progress\<close>

text \<open>
  A bound on the steps the program can still take once the context is cancelled: for a
  goroutine by its place in the loop, for \<open>main\<close> and for the signal handler.
  \<open>program_step\<close> tells the steps of the program from the arrival of a signal;
  \<open>ready_reply\<close> is a reply of the operating system with which the goroutine can take
  its next step.
\<close>

definition wmeasure :: "nat \<Rightarrow> worker \<Rightarrow> nat" where
  "wmeasure n w =
     (case pc w of
        AtStart \<Rightarrow> 3
      | AtSelect \<Rightarrow> 1
      | AtRead \<Rightarrow> n + 4
      | AtForward packet src j \<Rightarrow> (n - j) + 2
      | Done \<Rightarrow> 0
      | Panicked \<Rightarrow> 0)"

fun main_measure :: "nat \<Rightarrow> mainpc \<Rightarrow> nat" where
  "main_measure L (MStartForwarding ts) = 4 * length ts + L + 6"
| "main_measure L MWait = L + 2"
| "main_measure L (MCloseConnections ops) = length ops + 1"
| "main_measure L (MExited n) = 0"
| "main_measure L (MKilled sig) = 0"

fun handler_measure :: "handlerpc \<Rightarrow> nat" where
  "handler_measure HIdle = 3"
| "handler_measure HWaiting = 3"
| "handler_measure (HReceived sig) = 2"
| "handler_measure HLogged = 1"
| "handler_measure HDone = 0"

definition steps_left :: "sys \<Rightarrow> nat" where
  "steps_left s =
     sum_list (map (wmeasure (length (sh_ifaces (s_shared s)))) (s_workers s)) +
     main_measure (length (close_ops s)) (s_main s) +
     handler_measure (s_handler s)"

fun program_step :: "action \<Rightarrow> bool" where
  "program_step (Signal sig) = False"
| "program_step a = True"

definition ready_reply :: "shared \<Rightarrow> worker \<Rightarrow> reply" where
  "ready_reply sh w =
     (case pc w of
        AtRead \<Rightarrow>
          (case lconn w of
             None \<Rightarrow> NoReply
           | Some c \<Rightarrow> ReadReply (ReadErr (OpError True [])))
      | AtForward packet src j \<Rightarrow>
          if j < length (sh_ifaces sh) \<and> j \<noteq> iIdx w
          then (case at3 (sh_senders sh) (gIdx w) j (pIdx w) of
                  Some (Some c) \<Rightarrow> WriteReply None
                | _ \<Rightarrow> NoReply)
          else NoReply
      | _ \<Rightarrow> NoReply)"

section \<open>Schedules\<close>

text \<open>
  One group, one interface and one port, and a schedule in which the only goroutine's
  read fails with an error that is not a timeout.
\<close>

definition flags1 :: flags where
  "flags1 = \<lparr>ifacesFlag = str ''eth0'', portsFlag = str ''1900'',
     groupsFlag = str ''239.255.255.250'', destPortsFlag = [], verboseFlag = False\<rparr>"

definition config1 :: config where
  "config1 = \<lparr>cfg_ifaces = [str ''eth0''], cfg_groups = [str ''239.255.255.250''],
     cfg_ports = [1900], cfg_destPorts = [1900], cfg_verbose = False\<rparr>"

definition regs1 :: regs where
  "regs1 = ([[[Some 0]]], [[[Some 1]]])"

definition proc1 :: proc where
  "proc1 =
     \<lparr>clock = 4, nextConn = 2,
      trace =
        [EListen (str ''239.255.255.250'') 1900 (str ''eth0'') (Inr 0),
         ESetReadBuffer 0 BufferLen,
         EDial (str ''239.255.255.250'') (str ''eth0'') (str ''10.0.0.1'') 1900 (Inr 1),
         ELog (Joined (str ''239.255.255.250'') (str ''eth0'') 1900 (str ''10.0.0.1'') 1900)]\<rparr>"

definition connection_reset :: goerr where
  "connection_reset = OpError False (str ''connection reset'')"

definition read_error_schedule :: "action list" where
  "read_error_schedule =
     [MainStep, MainStep, WorkerStep 0 NoReply, WorkerStep 0 NoReply,
      WorkerStep 0 (ReadReply (ReadErr connection_reset)), MainStep, MainStep, MainStep,
      MainStep]"

text \<open>
  With three interfaces: all goroutines started, the first about to read.
\<close>

definition reading_schedule :: "action list" where
  "reading_schedule =
     [MainStep, MainStep, MainStep, MainStep, WorkerStep 0 NoReply, WorkerStep 0 NoReply]"

text \<open>
  Flags whose list of interfaces, of ports, of groups is commas and white space.
\<close>

definition flags_no_ifaces :: flags where
  "flags_no_ifaces = \<lparr>ifacesFlag = str '', ,'', portsFlag = str ''1900'',
     groupsFlag = str ''239.255.255.250'', destPortsFlag = [], verboseFlag = False\<rparr>"

definition flags_no_ports :: flags where
  "flags_no_ports = \<lparr>ifacesFlag = str ''eth0,eth1'', portsFlag = str '','',
     groupsFlag = str ''239.255.255.250'', destPortsFlag = [], verboseFlag = False\<rparr>"

definition flags_no_groups :: flags where
  "flags_no_groups = \<lparr>ifacesFlag = str ''eth0,eth1'', portsFlag = str ''1900'',
     groupsFlag = str '' , , '', destPortsFlag = [], verboseFlag = False\<rparr>"

text \<open>
  Every interface of the list is found, whenever it is looked up, and has an IPv4
  address, whenever its addresses are listed.
\<close>

definition resolves :: "netenv \<Rightarrow> gostring list \<Rightarrow> bool" where
  "resolves net ifaces \<longleftrightarrow>
     list_all (\<lambda>n. \<forall>t. \<exists>ifi. InterfaceByName net t n = Inr ifi \<and>
        (\<forall>t'. \<exists>addrs l. Addrs net t' ifi = Inr addrs \<and> firstIPv4Addr_loop addrs = Some l))
       ifaces"

section \<open>Signals\<close>

text \<open>
  A signal has been sent to \<open>sigChan\<close> and the handler has not yet called \<open>cancel()\<close>.
\<close>

definition signal_pending :: "sys \<Rightarrow> bool" where
  "signal_pending s \<longleftrightarrow>
     s_handler s = HWaiting \<and> s_sigchan s \<noteq> None \<or>
     (\<exists>sig. s_handler s = HReceived sig) \<or> s_handler s = HLogged"

text \<open>
  With three interfaces: all goroutines are started and stand at their \<open>select\<close>, a
  \<open>SIGTERM\<close> arrives and is handled, the goroutines return, \<open>main\<close> closes the six
  connections and returns.
\<close>

definition shutdown3_schedule :: "action list" where
  "shutdown3_schedule =
     [MainStep, MainStep, MainStep, MainStep,
      WorkerStep 0 NoReply, WorkerStep 1 NoReply, WorkerStep 2 NoReply,
      Signal SIGTERM, HandlerStep, HandlerStep, HandlerStep,
      WorkerStep 2 NoReply, WorkerStep 0 NoReply, WorkerStep 1 NoReply,
      MainStep, MainStep, MainStep, MainStep, MainStep, MainStep, MainStep, MainStep]"

text \<open>
  With three interfaces and no signal: the reads of the second and of the third
  goroutine have failed, the first goroutine is about to read.
\<close>

definition last_reader_schedule :: "action list" where
  "last_reader_schedule =
     [MainStep, MainStep, MainStep, MainStep,
      WorkerStep 0 NoReply, WorkerStep 0 NoReply,
      WorkerStep 1 NoReply, WorkerStep 1 NoReply,
      WorkerStep 1 (ReadReply (ReadErr connection_reset)),
      WorkerStep 2 NoReply, WorkerStep 2 NoReply,
      WorkerStep 2 (ReadReply (ReadErr connection_reset))]"

section \<open>The answers of the operating system\<close>










section \<open>Concrete inputs\<close>

definition flags_same :: flags where
  "flags_same = \<lparr>ifacesFlag = str ''eth0,eth1'', portsFlag = str ''1900,1990'',
     groupsFlag = str ''239.255.255.250'', destPortsFlag = [], verboseFlag = False\<rparr>"

definition config_same :: config where
  "config_same = \<lparr>cfg_ifaces = [str ''eth0'', str ''eth1''],
     cfg_groups = [str ''239.255.255.250''], cfg_ports = [1900, 1990],
     cfg_destPorts = [1900, 1990], cfg_verbose = False\<rparr>"

section \<open>Port parsing\<close>

lemma parsePorts_loop_length:
  "parsePorts_loop ss acc = Inr ps \<Longrightarrow> length ps = length acc + length ss"
  by (induction ss arbitrary: acc) (auto split: sum.splits if_splits)

lemma parsePorts_length: "parsePorts ss = Inr ps \<Longrightarrow> length ps = length ss"
  unfolding parsePorts_def by (drule parsePorts_loop_length) simp

lemma parsePorts_loop_range:
  "parsePorts_loop ss acc = Inr ps \<Longrightarrow> set acc \<subseteq> {1..65535} \<Longrightarrow> set ps \<subseteq> {1..65535}"
proof (induction ss arbitrary: acc)
  case Nil
  then show ?case by simp
next
  case (Cons s ss)
  from Cons.prems(1) obtain port where p: "Sscanf_d s = Inr port" "\<not> (port \<le> 0 \<or> port > 65535)"
    "parsePorts_loop ss (acc @ [port]) = Inr ps"
    by (simp split: sum.splits if_splits)
  have "set (acc @ [port]) \<subseteq> {1..65535}" using Cons.prems(2) p(2) by simp
  with Cons.IH p(3) show ?case by blast
qed

lemma parsePorts_range: "parsePorts ss = Inr ps \<Longrightarrow> p \<in> set ps \<Longrightarrow> 1 \<le> p \<and> p \<le> 65535"
  unfolding parsePorts_def using parsePorts_loop_range [of ss "[]" ps] by auto

lemmas scan_defs = parsePorts_def str_def Sscanf_d_def scanInt_def scanNumber_def isDigit_def
  isSign_def IsSpace_def intBits_def

text \<open>
  C9. The port string \<open>80abc\<close> is not a number, and \<open>parsePorts\<close> accepts it as port 80:
  the scan reads the leading digits and never looks at the rest of the string.
\<close>

theorem parsePorts_trailing_text: "parsePorts [str ''80abc''] = Inr [80]"
  by (simp add: scan_defs)

section \<open>Destination ports\<close>

lemma main_config_flags_same: "main_config flags_same = Inr config_same"
  by (simp add: main_config_def flags_same_def config_same_def parseCommaSeparated_def
      comma_def TrimSpace_def scan_defs Let_def)

text \<open>
  C6. When the flag of the destination ports is not given and the flags are accepted,
  the destination ports are the listening ports, position by position.
\<close>

theorem dest_ports_default:
  assumes "main_config fl = Inr cfg" and "destPortsFlag fl = []"
  shows "cfg_destPorts cfg = cfg_ports cfg \<and>
         (\<forall>i < length (cfg_ports cfg). cfg_destPorts cfg ! i = cfg_ports cfg ! i)"
  using assms by (auto simp: main_config_def Let_def split: if_splits sum.splits)

theorem dest_ports_default_witness:
  "main_config flags_same = Inr config_same \<and> destPortsFlag flags_same = [] \<and>
   cfg_ports config_same = [1900, 1990] \<and> cfg_destPorts config_same = [1900, 1990]"
  using dest_ports_default [OF main_config_flags_same] main_config_flags_same
  by (simp add: flags_same_def config_same_def)

section \<open>initializeConnections fills the registry\<close>

lemma shape3_make3: "shape3 (make3 G I P) G I P"
  by (simp add: shape3_def make3_def)

lemma at3_shape:
  "shape3 a G I P \<Longrightarrow> at3 a g i p = (if g < G \<and> i < I \<and> p < P then Some (a ! g ! i ! p) else None)"
  by (auto simp: shape3_def at3_def at_def)

lemma shape3D:
  assumes "shape3 a G I P"
  shows "length a = G" and "g < G \<Longrightarrow> length (a ! g) = I"
    and "g < G \<Longrightarrow> i < I \<Longrightarrow> length (a ! g ! i) = P"
  using assms by (auto simp: shape3_def)

lemma set3_row:
  assumes "shape3 a G I P" and "g' < G"
  shows "set3 a g i p c ! g' = (if g' = g then (a ! g)[i := (a ! g ! i)[p := Some c]] else a ! g')"
  using assms by (simp add: set3_def shape3D(1) nth_list_update)

lemma set3_cell:
  assumes "shape3 a G I P" and "g' < G" and "i' < I"
  shows "set3 a g i p c ! g' ! i' =
           (if g' = g \<and> i' = i then (a ! g ! i)[p := Some c] else a ! g' ! i')"
  using assms by (simp add: set3_row shape3D nth_list_update)

lemma nth_set3:
  assumes "shape3 a G I P" and "g' < G" and "i' < I" and "p' < P"
  shows "set3 a g i p c ! g' ! i' ! p' =
           (if g' = g \<and> i' = i \<and> p' = p then Some c else a ! g' ! i' ! p')"
  using assms by (simp add: set3_cell shape3D nth_list_update)

lemma shape3_set3:
  assumes "shape3 a G I P"
  shows "shape3 (set3 a g i p c) G I P"
  unfolding shape3_def
proof (intro conjI allI impI)
  show "length (set3 a g i p c) = G" using assms by (simp add: set3_def shape3D)
next
  fix g' assume "g' < G"
  then show "length (set3 a g i p c ! g') = I" using assms by (simp add: set3_row shape3D)
next
  fix g' i' assume "g' < G" "i' < I"
  then show "length (set3 a g i p c ! g' ! i') = P" using assms by (simp add: set3_cell shape3D)
qed

lemma entry_shape:
  "shape3 a G I P \<Longrightarrow>
   entry a (g, i, p) = (if g < G \<and> i < I \<and> p < P then a ! g ! i ! p else None)"
  by (simp add: entry_def at3_shape split: option.splits)

lemma entry_set3:
  assumes "shape3 a G I P"
  shows "entry (set3 a g i p c) t =
     (if t = (g, i, p) \<and> g < G \<and> i < I \<and> p < P then Some c else entry a t)"
proof (cases t)
  case (fields g' i' p')
  show ?thesis
    unfolding fields
    by (simp add: entry_shape [OF shape3_set3 [OF assms]] entry_shape [OF assms] nth_set3 [OF assms])
qed

lemma entry_make3: "entry (make3 G I P) t = None"
proof (cases t)
  case (fields g i p)
  show ?thesis unfolding fields
    using entry_shape [OF shape3_make3, of G I P g i p] by (simp add: make3_def)
qed

lemmas proc_defs = tick_def emit_def newConn_def fatalf_def

lemma ports_body_Ok:
  assumes "ports_body net (g, grp, m) (i, n, ifi, l) dps p port (cs, ss) st = Ok rs' st'"
  shows "rs' = (set3 cs g i p (nextConn st), set3 ss g i p (Suc (nextConn st)))"
    and "nextConn st' = Suc (Suc (nextConn st))"
    and "p < length dps"
    and "trace st' = trace st @
           [EListen grp port n (Inr (nextConn st)), ESetReadBuffer (nextConn st) BufferLen,
            EDial grp n l (dps ! p) (Inr (Suc (nextConn st))),
            ELog (Joined grp n port l (dps ! p))]"
  using assms
  by (auto simp: ports_body_def proc_defs Let_def split: option.splits if_splits)

lemma ports_body_sound:
  assumes ok: "ports_body net (g, grp, m) (i, n, ifi, l) dps p port rs st = Ok rs' st'"
    and s: "sound rs st G I P" and r: "g < G" "i < I" "p < P"
  shows "sound rs' st' G I P \<and> grows rs rs' \<and> covers rs' (g, i, p)"
proof -
  obtain cs ss where rs: "rs = (cs, ss)" by (cases rs)
  note e = ports_body_Ok [OF ok [unfolded rs]]
  from s have sh: "shape3 cs G I P" "shape3 ss G I P" by (simp_all add: sound_def rs)
  from s have b: "\<And>t c. entry cs t = Some c \<Longrightarrow> c < nextConn st"
    "\<And>t c. entry ss t = Some c \<Longrightarrow> c < nextConn st"
    unfolding sound_def bounded_def rs fst_conv snd_conv by blast+
  from s have inj: "\<And>t t' c. entry cs t = Some c \<Longrightarrow> entry cs t' = Some c \<Longrightarrow> t = t'"
    "\<And>t t' c. entry ss t = Some c \<Longrightarrow> entry ss t' = Some c \<Longrightarrow> t = t'"
    "\<And>t t' c. entry cs t = Some c \<Longrightarrow> entry ss t' \<noteq> Some c"
    unfolding sound_def inj_regs_def rs fst_conv snd_conv by blast+
  have ec: "\<And>t. entry (fst rs') t = (if t = (g, i, p) then Some (nextConn st) else entry cs t)"
    and es: "\<And>t. entry (snd rs') t = (if t = (g, i, p) then Some (Suc (nextConn st)) else entry ss t)"
    using r by (simp_all add: e(1) entry_set3 [OF sh(1)] entry_set3 [OF sh(2)])
  define h where "h = nextConn st"
  have nc: "\<And>t. entry cs t \<noteq> Some h" "\<And>t. entry cs t \<noteq> Some (Suc h)"
    and ns: "\<And>t. entry ss t \<noteq> Some h" "\<And>t. entry ss t \<noteq> Some (Suc h)"
    using b unfolding h_def by fastforce+
  note ec' = ec [folded h_def] and es' = es [folded h_def]
  have "shape3 (fst rs') G I P" "shape3 (snd rs') G I P"
    by (simp_all add: e(1) shape3_set3 sh)
  moreover have "bounded rs' (nextConn st')"
    unfolding bounded_def e(2)
  proof (intro allI impI)
    fix t c assume a: "entry (fst rs') t = Some c \<or> entry (snd rs') t = Some c"
    show "c < Suc (Suc (nextConn st))"
    proof (cases "t = (g, i, p)")
      case True
      with a show ?thesis by (auto simp: ec es)
    next
      case False
      with a have "entry cs t = Some c \<or> entry ss t = Some c" by (simp add: ec es)
      with b have "c < nextConn st" by blast
      then show ?thesis by simp
    qed
  qed
  moreover have "inj_regs rs'"
  proof -
    have fc: "\<And>t c. entry (fst rs') t = Some c \<Longrightarrow>
        (t = (g, i, p) \<and> c = h) \<or> (t \<noteq> (g, i, p) \<and> entry cs t = Some c)"
      and fs: "\<And>t c. entry (snd rs') t = Some c \<Longrightarrow>
        (t = (g, i, p) \<and> c = Suc h) \<or> (t \<noteq> (g, i, p) \<and> entry ss t = Some c)"
      by (simp_all add: ec' es' split: if_splits)
    show ?thesis
      unfolding inj_regs_def
    proof (intro conjI allI impI)
      fix t t' c assume "entry (fst rs') t = Some c \<and> entry (fst rs') t' = Some c"
      then show "t = t'" by (metis fc nc(1) inj(1))
    next
      fix t t' c assume "entry (snd rs') t = Some c \<and> entry (snd rs') t' = Some c"
      then show "t = t'" by (metis fs ns(2) inj(2))
    next
      fix t t' c assume "entry (fst rs') t = Some c"
      then show "entry (snd rs') t' \<noteq> Some c"
        by (metis fc fs nc(2) ns(1) inj(3) n_not_Suc_n)
    qed
  qed
  moreover have "grows rs rs'"
    unfolding grows_def covers_def ec es by (simp add: rs)
  moreover have "covers rs' (g, i, p)"
    unfolding covers_def ec es by simp
  ultimately show ?thesis by (simp add: sound_def)
qed

lemma grows_refl: "grows rs rs" by (simp add: grows_def)

lemma grows_trans: "grows a b \<Longrightarrow> grows b c \<Longrightarrow> grows a c" by (simp add: grows_def)

lemma sound_nextConn: "nextConn st1 = nextConn st \<Longrightarrow> sound rs st1 G I P = sound rs st G I P"
  by (simp add: sound_def)

lemma ports_loop_sound:
  assumes "ports_loop net (g, grp, m) (i, n, ifi, l) dps p0 rest rs st = Ok rs' st'"
    and "sound rs st G I P" and "g < G" and "i < I" and "p0 + length rest = P"
  shows "sound rs' st' G I P \<and> grows rs rs' \<and> (\<forall>p. p0 \<le> p \<longrightarrow> p < P \<longrightarrow> covers rs' (g, i, p))"
  using assms
proof (induction rest arbitrary: p0 rs st)
  case Nil
  then show ?case by (simp add: grows_refl)
next
  case (Cons port rest)
  from Cons.prems(1) obtain rs1 st1 where
    b: "ports_body net (g, grp, m) (i, n, ifi, l) dps p0 port rs st = Ok rs1 st1"
    and l: "ports_loop net (g, grp, m) (i, n, ifi, l) dps (Suc p0) rest rs1 st1 = Ok rs' st'"
    by (simp split: outcome.splits)
  from Cons.prems(5) have lt: "p0 < P" and eq: "Suc p0 + length rest = P" by simp_all
  from ports_body_sound [OF b Cons.prems(2) \<open>g < G\<close> \<open>i < I\<close> lt]
  have s1: "sound rs1 st1 G I P" and g1: "grows rs rs1" and c1: "covers rs1 (g, i, p0)" by simp_all
  from Cons.IH [OF l s1 \<open>g < G\<close> \<open>i < I\<close> eq]
  have s2: "sound rs' st' G I P" and g2: "grows rs1 rs'"
    and c2: "\<And>p. Suc p0 \<le> p \<Longrightarrow> p < P \<Longrightarrow> covers rs' (g, i, p)" by simp_all
  have "covers rs' (g, i, p)" if "p0 \<le> p" "p < P" for p
  proof (cases "p = p0")
    case True
    with c1 g2 show ?thesis by (simp add: grows_def)
  next
    case False
    with that c2 show ?thesis by simp
  qed
  with s2 grows_trans [OF g1 g2] show ?case by simp
qed

lemma firstIPv4Addr_proc:
  "firstIPv4Addr net ifi st = (r, st1) \<Longrightarrow> nextConn st1 = nextConn st \<and> trace st1 = trace st"
  by (auto simp: firstIPv4Addr_def tick_def split: sum.splits option.splits)

lemma ifaces_body_Ok:
  assumes "ifaces_body net gc ports dps i n rs st = Ok rs' st'"
  obtains ifi l st1 where "nextConn st1 = nextConn st" and "trace st1 = trace st"
    and "ports_loop net gc (i, n, ifi, l) dps 0 ports rs st1 = Ok rs' st'"
proof -
  from assms obtain ifi where i: "InterfaceByName net (clock st) n = Inr ifi"
    by (auto simp: ifaces_body_def fatalf_def split: sum.splits)
  obtain r st1 where f: "firstIPv4Addr net ifi (tick st) = (r, st1)" by (cases "firstIPv4Addr net ifi (tick st)")
  from assms i f obtain l where l: "r = Inr l"
    and p: "ports_loop net gc (i, n, ifi, l) dps 0 ports rs st1 = Ok rs' st'"
    by (auto simp: ifaces_body_def fatalf_def split: sum.splits)
  from firstIPv4Addr_proc [OF f] have "nextConn st1 = nextConn st" "trace st1 = trace st"
    by (simp_all add: tick_def)
  with p that show ?thesis by blast
qed

lemma ifaces_loop_sound:
  assumes "ifaces_loop net (g, grp, m) ports dps i0 rest rs st = Ok rs' st'"
    and "sound rs st G I (length ports)" and "g < G" and "i0 + length rest = I"
  shows "sound rs' st' G I (length ports) \<and> grows rs rs' \<and>
         (\<forall>i p. i0 \<le> i \<longrightarrow> i < I \<longrightarrow> p < length ports \<longrightarrow> covers rs' (g, i, p))"
  using assms
proof (induction rest arbitrary: i0 rs st)
  case Nil
  then show ?case by (simp add: grows_refl)
next
  case (Cons n rest)
  from Cons.prems(1) obtain rs1 st1 where
    b: "ifaces_body net (g, grp, m) ports dps i0 n rs st = Ok rs1 st1"
    and l: "ifaces_loop net (g, grp, m) ports dps (Suc i0) rest rs1 st1 = Ok rs' st'"
    by (simp split: outcome.splits)
  from Cons.prems(4) have lt: "i0 < I" and eq: "Suc i0 + length rest = I" by simp_all
  from b obtain ifi lip st0 where n0: "nextConn st0 = nextConn st"
    and pl: "ports_loop net (g, grp, m) (i0, n, ifi, lip) dps 0 ports rs st0 = Ok rs1 st1"
    by (rule ifaces_body_Ok)
  from Cons.prems(2) have s0: "sound rs st0 G I (length ports)"
    unfolding sound_nextConn [OF n0] .
  from ports_loop_sound [OF pl s0 \<open>g < G\<close> lt]
  have s1: "sound rs1 st1 G I (length ports)" and g1: "grows rs rs1"
    and c1: "\<And>p. p < length ports \<Longrightarrow> covers rs1 (g, i0, p)" by simp_all
  from Cons.IH [OF l s1 \<open>g < G\<close> eq]
  have s2: "sound rs' st' G I (length ports)" and g2: "grows rs1 rs'"
    and c2: "\<And>i p. Suc i0 \<le> i \<Longrightarrow> i < I \<Longrightarrow> p < length ports \<Longrightarrow> covers rs' (g, i, p)"
    by simp_all
  have "covers rs' (g, i, p)" if "i0 \<le> i" "i < I" "p < length ports" for i p
  proof (cases "i = i0")
    case True
    with c1 [OF that(3)] g2 show ?thesis by (simp add: grows_def)
  next
    case False
    with that c2 show ?thesis by simp
  qed
  with s2 grows_trans [OF g1 g2] show ?case by simp
qed

lemma groups_body_Ok:
  assumes "groups_body net ifaces ports dps g grp rs st = Ok rs' st'"
  shows "ifaces_loop net (g, grp, ParseIP net grp) ports dps 0 ifaces rs st = Ok rs' st'"
  using assms by (simp add: groups_body_def Let_def fatalf_def split: if_splits)

lemma groups_loop_sound:
  assumes "groups_loop net ifaces ports dps g0 rest rs st = Ok rs' st'"
    and "sound rs st G (length ifaces) (length ports)" and "g0 + length rest = G"
  shows "sound rs' st' G (length ifaces) (length ports) \<and> grows rs rs' \<and>
         (\<forall>g i p. g0 \<le> g \<longrightarrow> g < G \<longrightarrow> i < length ifaces \<longrightarrow> p < length ports \<longrightarrow>
            covers rs' (g, i, p))"
  using assms
proof (induction rest arbitrary: g0 rs st)
  case Nil
  then show ?case by (simp add: grows_refl)
next
  case (Cons grp rest)
  from Cons.prems(1) obtain rs1 st1 where
    b: "groups_body net ifaces ports dps g0 grp rs st = Ok rs1 st1"
    and l: "groups_loop net ifaces ports dps (Suc g0) rest rs1 st1 = Ok rs' st'"
    by (simp split: outcome.splits)
  from Cons.prems(3) have lt: "g0 < G" and eq: "Suc g0 + length rest = G" by simp_all
  from ifaces_loop_sound [OF groups_body_Ok [OF b] Cons.prems(2) lt]
  have s1: "sound rs1 st1 G (length ifaces) (length ports)" and g1: "grows rs rs1"
    and c1: "\<And>i p. i < length ifaces \<Longrightarrow> p < length ports \<Longrightarrow> covers rs1 (g0, i, p)"
    by simp_all
  from Cons.IH [OF l s1 eq]
  have s2: "sound rs' st' G (length ifaces) (length ports)" and g2: "grows rs1 rs'"
    and c2: "\<And>g i p. Suc g0 \<le> g \<Longrightarrow> g < G \<Longrightarrow> i < length ifaces \<Longrightarrow> p < length ports \<Longrightarrow>
               covers rs' (g, i, p)"
    by simp_all
  have "covers rs' (g, i, p)" if "g0 \<le> g" "g < G" "i < length ifaces" "p < length ports" for g i p
  proof (cases "g = g0")
    case True
    with c1 [OF that(3,4)] g2 show ?thesis by (simp add: grows_def)
  next
    case False
    with that c2 show ?thesis by simp
  qed
  with s2 grows_trans [OF g1 g2] show ?case by simp
qed

lemma sound_make3: "sound (make3 G I P, make3 G I P) st G I P"
  by (simp add: sound_def shape3_make3 bounded_def inj_regs_def entry_make3)

lemma initializeConnections_sound:
  assumes "initializeConnections net groups ifaces ports dps st = Ok rs st'"
  shows "sound rs st' (length groups) (length ifaces) (length ports)"
    and "g < length groups \<Longrightarrow> i < length ifaces \<Longrightarrow> p < length ports \<Longrightarrow> covers rs (g, i, p)"
  using groups_loop_sound [OF assms [unfolded initializeConnections_def Let_def] sound_make3]
  by simp_all

lemma extends_by_step:
  assumes "extends_by t0 (Ok x st1) evs1" and "extends_by (trace st1) out evs2"
  shows "extends_by t0 out (evs1 @ evs2)"
  using assms by (cases out) (simp_all add: extends_by_def)

lemma extends_by_Fatal_cong:
  "extends_by t0 (Fatal f st' :: 'a outcome) evs \<Longrightarrow> extends_by t0 (Fatal f st' :: 'b outcome) evs"
  and extends_by_Panic_cong:
  "extends_by t0 (Panic st' :: 'a outcome) evs \<Longrightarrow> extends_by t0 (Panic st' :: 'b outcome) evs"
  by (simp_all add: extends_by_def)

lemma fatalf_extends: "failure_events f = [] \<Longrightarrow> trace st = t0 \<Longrightarrow> extends_by t0 (fatalf f st) []"
  by (simp add: extends_by_def fatalf_def emit_def)

lemma ports_body_trace:
  "\<exists>evs. extends_by (trace st) (ports_body net gc ic dps p port rs st) evs"
proof -
  obtain g grp m where gc: "gc = (g, grp, m)" by (cases gc)
  obtain i n ifi l where ic: "ic = (i, n, ifi, l)" by (cases ic)
  obtain cs ss where rs: "rs = (cs, ss)" by (cases rs)
  show ?thesis
  proof (cases "ports_body net gc ic dps p port rs st")
    case (Ok rs' st')
    from ports_body_Ok(4) [OF Ok [unfolded gc ic rs]] show ?thesis
      unfolding Ok extends_by_def by simp
  next
    case (Fatal f st')
    then have "trace st' = trace st @ [] @ failure_events f @ [ELog (FatalLine f)] \<or>
      (\<exists>c. trace st' = trace st @ [EListen grp port n (Inr c), ESetReadBuffer c BufferLen]
            @ failure_events f @ [ELog (FatalLine f)])"
      unfolding gc ic rs
      by (auto simp: ports_body_def proc_defs Let_def failure_events_def
          split: option.splits if_splits)
    then show ?thesis unfolding Fatal extends_by_def
      by (elim disjE exE) simp_all
  next
    case (Panic st')
    then have "\<exists>c. trace st' = trace st @ [EListen grp port n (Inr c), ESetReadBuffer c BufferLen]"
      unfolding gc ic rs
      by (auto simp: ports_body_def proc_defs Let_def split: option.splits if_splits)
    then show ?thesis unfolding Panic extends_by_def
      by (elim exE) simp
  qed
qed

lemma ports_loop_trace:
  "\<exists>evs. extends_by (trace st) (ports_loop net gc ic dps p rest rs st) evs"
proof (induction rest arbitrary: p rs st)
  case Nil
  show ?case by (simp add: extends_by_def)
next
  case (Cons port rest)
  obtain evs1 where e1: "extends_by (trace st) (ports_body net gc ic dps p port rs st) evs1"
    using ports_body_trace by blast
  show ?case
  proof (cases "ports_body net gc ic dps p port rs st")
    case (Ok rs1 st1)
    obtain evs2 where "extends_by (trace st1) (ports_loop net gc ic dps (Suc p) rest rs1 st1) evs2"
      using Cons.IH by blast
    from extends_by_step [OF e1 [unfolded Ok] this] show ?thesis by (auto simp: Ok)
  next
    case (Fatal f st1)
    with e1 show ?thesis by (auto intro: extends_by_Fatal_cong)
  next
    case (Panic st1)
    with e1 show ?thesis by (auto intro: extends_by_Panic_cong)
  qed
qed

lemma ifaces_body_trace:
  "\<exists>evs. extends_by (trace st) (ifaces_body net gc ports dps i n rs st) evs"
proof (cases "InterfaceByName net (clock st) n")
  case (Inl err)
  then show ?thesis
    by (auto simp: ifaces_body_def tick_def failure_events_def intro!: exI [where x = "[]"] fatalf_extends)
next
  case (Inr ifi)
  obtain r st1 where f: "firstIPv4Addr net ifi (tick st) = (r, st1)"
    by (cases "firstIPv4Addr net ifi (tick st)")
  from firstIPv4Addr_proc [OF f] have t: "trace st1 = trace st" by (simp add: tick_def)
  show ?thesis
  proof (cases r)
    case (Inl err)
    with Inr f t show ?thesis
      by (auto simp: ifaces_body_def failure_events_def intro!: exI [where x = "[]"] fatalf_extends)
  next
    case (Inr l)
    with \<open>InterfaceByName net (clock st) n = Inr ifi\<close> f t ports_loop_trace [of st1 net gc "(i, n, ifi, l)" dps 0 ports rs]
    show ?thesis by (simp add: ifaces_body_def)
  qed
qed

lemma ifaces_loop_trace:
  "\<exists>evs. extends_by (trace st) (ifaces_loop net gc ports dps i rest rs st) evs"
proof (induction rest arbitrary: i rs st)
  case Nil
  show ?case by (simp add: extends_by_def)
next
  case (Cons n rest)
  obtain evs1 where e1: "extends_by (trace st) (ifaces_body net gc ports dps i n rs st) evs1"
    using ifaces_body_trace by blast
  show ?case
  proof (cases "ifaces_body net gc ports dps i n rs st")
    case (Ok rs1 st1)
    obtain evs2 where "extends_by (trace st1) (ifaces_loop net gc ports dps (Suc i) rest rs1 st1) evs2"
      using Cons.IH by blast
    from extends_by_step [OF e1 [unfolded Ok] this] show ?thesis by (auto simp: Ok)
  next
    case (Fatal f st1)
    with e1 show ?thesis by (auto intro: extends_by_Fatal_cong)
  next
    case (Panic st1)
    with e1 show ?thesis by (auto intro: extends_by_Panic_cong)
  qed
qed

lemma groups_body_trace:
  "\<exists>evs. extends_by (trace st) (groups_body net ifaces ports dps g grp rs st) evs"
  using ifaces_loop_trace [of st net "(g, grp, ParseIP net grp)" ports dps 0 ifaces rs]
  by (auto simp: groups_body_def Let_def failure_events_def intro!: exI [where x = "[]"] fatalf_extends)

lemma groups_loop_trace:
  "\<exists>evs. extends_by (trace st) (groups_loop net ifaces ports dps g rest rs st) evs"
proof (induction rest arbitrary: g rs st)
  case Nil
  show ?case by (simp add: extends_by_def)
next
  case (Cons grp rest)
  obtain evs1 where e1: "extends_by (trace st) (groups_body net ifaces ports dps g grp rs st) evs1"
    using groups_body_trace by blast
  show ?case
  proof (cases "groups_body net ifaces ports dps g grp rs st")
    case (Ok rs1 st1)
    obtain evs2 where "extends_by (trace st1) (groups_loop net ifaces ports dps (Suc g) rest rs1 st1) evs2"
      using Cons.IH by blast
    from extends_by_step [OF e1 [unfolded Ok] this] show ?thesis by (auto simp: Ok)
  next
    case (Fatal f st1)
    with e1 show ?thesis by (auto intro: extends_by_Fatal_cong)
  next
    case (Panic st1)
    with e1 show ?thesis by (auto intro: extends_by_Panic_cong)
  qed
qed

lemma initializeConnections_trace:
  "\<exists>evs. extends_by (trace st) (initializeConnections net groups ifaces ports dps st) evs"
  unfolding initializeConnections_def Let_def by (rule groups_loop_trace)

lemma main_start_trace: "\<exists>evs. extends_by (trace st) (main_start net fl st) evs"
proof (cases "main_config fl")
  case (Inl f)
  then have "failure_events f = []"
    by (auto simp: main_config_def Let_def failure_events_def split: if_splits sum.splits)
  with Inl show ?thesis
    by (auto simp: main_start_def intro!: exI [where x = "[]"] fatalf_extends)
next
  case (Inr cfg)
  obtain evs where e: "extends_by (trace st)
     (initializeConnections net (cfg_groups cfg) (cfg_ifaces cfg) (cfg_ports cfg) (cfg_destPorts cfg) st) evs"
    using initializeConnections_trace by blast
  then show ?thesis
    unfolding main_start_def Inr
    by (cases "initializeConnections net (cfg_groups cfg) (cfg_ifaces cfg) (cfg_ports cfg) (cfg_destPorts cfg) st")
       (auto simp: extends_by_def)
qed

lemma main_config_Inl_config_error: "main_config fl = Inl f \<Longrightarrow> config_error f"
  by (auto simp: main_config_def Let_def split: if_splits sum.splits)

lemma main_start_config_Fatal:
  "main_config fl = Inl f \<Longrightarrow>
   main_start net fl st = Fatal f (st\<lparr>trace := trace st @ [ELog (FatalLine f)]\<rparr>)"
  by (simp add: main_start_def fatalf_def emit_def)

text \<open>
  C8. When the flag of the destination ports is given and does not list as many ports
  as the flag of the listening ports, \<open>main\<close> ends in \<open>log.Fatalf\<close> on one of its checks
  of the flags, before \<open>initializeConnections\<close> is called: the only thing the process
  has done is to log that line. When the mandatory flags are given and both lists are
  lists of ports, the line is the one about the number of destination ports.
\<close>

theorem dest_port_count_mismatch:
  assumes "destPortsFlag fl \<noteq> []"
    and "length (parseCommaSeparated (destPortsFlag fl)) \<noteq>
         length (parseCommaSeparated (portsFlag fl))"
  shows "\<exists>f. main_start net fl st = Fatal f (st\<lparr>trace := trace st @ [ELog (FatalLine f)]\<rparr>) \<and>
             config_error f \<and>
             (ifacesFlag fl \<noteq> [] \<and> portsFlag fl \<noteq> [] \<and> groupsFlag fl \<noteq> [] \<and>
              parsePorts (parseCommaSeparated (portsFlag fl)) = Inr lports \<and>
              parsePorts (parseCommaSeparated (destPortsFlag fl)) = Inr dports \<longrightarrow>
              f = PortCountMismatch (length dports) (length lports) \<and>
              length dports \<noteq> length lports)"
proof -
  have "\<exists>f. main_config fl = Inl f \<and>
          (ifacesFlag fl \<noteq> [] \<and> portsFlag fl \<noteq> [] \<and> groupsFlag fl \<noteq> [] \<and>
              parsePorts (parseCommaSeparated (portsFlag fl)) = Inr lports \<and>
              parsePorts (parseCommaSeparated (destPortsFlag fl)) = Inr dports \<longrightarrow>
              f = PortCountMismatch (length dports) (length lports) \<and>
              length dports \<noteq> length lports)"
    using assms
    by (auto simp: main_config_def Let_def dest!: parsePorts_length split: sum.splits)
  then obtain f where f: "main_config fl = Inl f" and
    m: "ifacesFlag fl \<noteq> [] \<and> portsFlag fl \<noteq> [] \<and> groupsFlag fl \<noteq> [] \<and>
              parsePorts (parseCommaSeparated (portsFlag fl)) = Inr lports \<and>
              parsePorts (parseCommaSeparated (destPortsFlag fl)) = Inr dports \<longrightarrow>
              f = PortCountMismatch (length dports) (length lports) \<and>
              length dports \<noteq> length lports"
    by blast
  from main_start_config_Fatal [OF f] main_config_Inl_config_error [OF f] m
  show ?thesis by blast
qed

lemma parse_flags_mismatch:
  "parseCommaSeparated (destPortsFlag flags_mismatch) = [str ''2021'']"
  "parseCommaSeparated (portsFlag flags_mismatch) = [str ''1900'', str ''1990'']"
  "parsePorts [str ''2021''] = Inr [2021]"
  "parsePorts [str ''1900'', str ''1990''] = Inr [1900, 1990]"
  by (simp_all add: flags_mismatch_def parseCommaSeparated_def comma_def TrimSpace_def scan_defs)

theorem dest_port_count_mismatch_witness:
  "destPortsFlag flags_mismatch \<noteq> [] \<and>
   length (parseCommaSeparated (destPortsFlag flags_mismatch)) = 1 \<and>
   length (parseCommaSeparated (portsFlag flags_mismatch)) = 2 \<and>
   main_start net_up flags_mismatch proc0 =
     Fatal (PortCountMismatch 1 2) (proc0\<lparr>trace := [ELog (FatalLine (PortCountMismatch 1 2))]\<rparr>)"
proof -
  have a: "destPortsFlag flags_mismatch \<noteq> []" by (simp add: flags_mismatch_def str_def)
  have b: "length (parseCommaSeparated (destPortsFlag flags_mismatch)) \<noteq>
         length (parseCommaSeparated (portsFlag flags_mismatch))"
    by (simp add: parse_flags_mismatch)
  have c: "ifacesFlag flags_mismatch \<noteq> [] \<and> portsFlag flags_mismatch \<noteq> [] \<and>
     groupsFlag flags_mismatch \<noteq> []" by (simp add: flags_mismatch_def str_def)
  from dest_port_count_mismatch [OF a b, of net_up proc0 "[1900, 1990]" "[2021]"] a c
  show ?thesis
    by (auto simp: parse_flags_mismatch proc0_def)
qed

lemma Split_not_Nil: "Split s sep \<noteq> []"
  by (induction s) (auto split: list.splits)

lemma comma_not_space: "\<not> IsSpace comma"
  by (simp add: IsSpace_def comma_def)

lemma Split_all_space:
  "list_all (\<lambda>r. r = comma \<or> IsSpace r) s \<Longrightarrow> list_all (list_all IsSpace) (Split s comma)"
proof (induction s)
  case Nil
  show ?case by simp
next
  case (Cons r rs)
  then have ih: "list_all (list_all IsSpace) (Split rs comma)" by simp
  show ?case
  proof (cases "r = comma")
    case True
    with ih show ?thesis by simp
  next
    case False
    with Cons.prems have "IsSpace r" by simp
    with ih False show ?thesis by (cases "Split rs comma") simp_all
  qed
qed

lemma TrimSpace_all_space:
  assumes "list_all IsSpace s"
  shows "TrimSpace s = []"
proof -
  from assms have d: "dropWhile IsSpace s = []"
    by (induction s) simp_all
  show ?thesis unfolding TrimSpace_def d by simp
qed

lemma parseCommaSeparated_loop_all_space:
  "list_all (list_all IsSpace) parts \<Longrightarrow> parseCommaSeparated_loop parts acc = acc"
  by (induction parts arbitrary: acc) (simp_all add: TrimSpace_all_space)

lemma parseCommaSeparated_comma_space: "commaSpaceOnly s \<Longrightarrow> parseCommaSeparated s = []"
  by (simp add: commaSpaceOnly_def parseCommaSeparated_def Split_all_space
      parseCommaSeparated_loop_all_space)

section \<open>Forwarding a datagram\<close>

lemma writes_append: "writes (xs @ ys) = writes xs @ writes ys"
  by (induction xs rule: writes.induct) simp_all

lemma wf_sender:
  assumes "wf_shared sh" and "in_range sh w" and "j < length (sh_ifaces sh)"
  shows "at3 (sh_senders sh) (gIdx w) j (pIdx w) = Some (Some (sender_of sh w j))"
proof -
  from assms have s: "shape3 (sh_senders sh) (length (sh_groups sh)) (length (sh_ifaces sh))
      (length (sh_ports sh))"
    and c: "covers (sh_conns sh, sh_senders sh) (gIdx w, j, pIdx w)"
    and r: "gIdx w < length (sh_groups sh)" "pIdx w < length (sh_ports sh)"
    by (simp_all add: wf_shared_def in_range_def)
  from c obtain x where x: "entry (sh_senders sh) (gIdx w, j, pIdx w) = Some x"
    by (auto simp: covers_def)
  then have "sender_of sh w j = x" by (simp add: sender_of_def)
  with x show ?thesis
    by (auto simp: entry_def split: option.splits)
qed

lemma forward_log_wf:
  assumes "wf_shared sh" and "in_range sh w" and "j < length (sh_ifaces sh)"
  shows "forward_log sh w packet src j werr =
     Some (case werr of
              Some err \<Rightarrow>
                [ELog (ForwardError (wgroup w) (sh_ifaces sh ! iIdx w) (sh_ifaces sh ! j)
                         (sh_destPorts sh ! pIdx w) err)]
            | None \<Rightarrow>
                if sh_verbose sh
                then [ELog (Forwarded (length packet) (addrIP src) (addrPort src)
                              (sh_ifaces sh ! iIdx w) (sh_ifaces sh ! j)
                              (sh_destPorts sh ! pIdx w))]
                else [])"
  using assms
  by (simp add: forward_log_def at_def wf_shared_def in_range_def split: option.splits)

lemma forward_step:
  assumes "wf_shared sh" and "in_range sh w" and "j < length (sh_ifaces sh)"
  shows "worker_step sh cancelled (if j = iIdx w then NoReply else WriteReply (wr j))
           (w\<lparr>pc := AtForward packet src j\<rparr>) =
         Some (w\<lparr>pc := AtForward packet src (Suc j)\<rparr>, fan_events sh w packet src wr j)"
proof (cases "j = iIdx w")
  case True
  with assms(3) show ?thesis by (simp add: worker_step_def fan_events_def)
next
  case False
  have r: "in_range sh (w\<lparr>pc := AtForward packet src j\<rparr>)" using assms(2) by (simp add: in_range_def)
  have s: "sender_of sh (w\<lparr>pc := AtForward packet src j\<rparr>) j = sender_of sh w j"
    by (simp add: sender_of_def)
  from False assms(3) show ?thesis
    using wf_sender [OF assms(1) r assms(3)] forward_log_wf [OF assms(1) r assms(3)]
    by (simp add: worker_step_def fan_events_def s split: option.splits)
qed

lemma fanout_run:
  assumes "wf_shared sh" and "in_range sh w" and "j \<le> length (sh_ifaces sh)"
  shows "worker_run sh cancelled (w\<lparr>pc := AtForward packet src j\<rparr>)
           (fanout_from (iIdx w) wr j (length (sh_ifaces sh))) =
         Some (w\<lparr>pc := AtSelect\<rparr>,
               concat (map (fan_events sh w packet src wr) [j..<length (sh_ifaces sh)]) @
               received_log sh w packet src)"
  using assms(3)
proof (induction "length (sh_ifaces sh) - j" arbitrary: j)
  case 0
  then have "j = length (sh_ifaces sh)" by simp
  then show ?case
    by (simp add: fanout_from_def worker_step_def received_log_def)
next
  case (Suc n)
  then have lt: "j < length (sh_ifaces sh)" and n: "n = length (sh_ifaces sh) - Suc j"
    and le: "Suc j \<le> length (sh_ifaces sh)" by simp_all
  have f: "fanout_from (iIdx w) wr j (length (sh_ifaces sh)) =
        (if j = iIdx w then NoReply else WriteReply (wr j)) #
        fanout_from (iIdx w) wr (Suc j) (length (sh_ifaces sh))"
    using lt by (simp add: fanout_from_def upt_conv_Cons)
  show ?case
    unfolding f
    using forward_step [OF assms(1,2) lt, of cancelled wr packet src] Suc.hyps(1) [OF n le] lt
    by (simp add: upt_conv_Cons)
qed

lemma read_step:
  assumes "pc w = AtRead" and "lconn w = Some c" and "length (buf w) = BufferLen"
    and "length d \<le> BufferLen"
  shows "worker_step sh cancelled (ReadReply (ReadOk d src)) w =
         Some (w\<lparr>pc := AtForward d src 0, buf := d @ drop (length d) (buf w)\<rparr>,
               [ESetReadDeadline c, ERead c])"
  using assms by (simp add: worker_step_def Let_def min_def)

lemma fan_events_buf [simp]: "fan_events sh (w\<lparr>buf := b\<rparr>) = fan_events sh w"
  by (simp add: fan_events_def sender_of_def fun_eq_iff split: option.splits)

lemma received_log_buf [simp]: "received_log sh (w\<lparr>buf := b\<rparr>) = received_log sh w"
  by (simp add: received_log_def fun_eq_iff)

lemma worker_upd_swap: "w\<lparr>buf := b, pc := q\<rparr> = w\<lparr>pc := q, buf := b\<rparr>"
  by (cases w) simp

lemma datagram_run:
  assumes "wf_shared sh" and "in_range sh w"
    and "pc w = AtRead" and "lconn w = Some c" and "length (buf w) = BufferLen"
    and "length d \<le> BufferLen"
  shows "worker_run sh cancelled w (datagram_replies sh w d src wr) =
         Some (w\<lparr>pc := AtSelect, buf := d @ drop (length d) (buf w)\<rparr>,
               [ESetReadDeadline c, ERead c] @
               concat (map (fan_events sh w d src wr) [0..<length (sh_ifaces sh)]) @
               received_log sh w d src)"
proof -
  let ?w1 = "w\<lparr>buf := d @ drop (length d) (buf w)\<rparr>"
  have r: "in_range sh ?w1" using assms(2) by (simp add: in_range_def)
  have "worker_run sh cancelled (w\<lparr>pc := AtForward d src 0, buf := d @ drop (length d) (buf w)\<rparr>)
          (fanout_from (iIdx w) wr 0 (length (sh_ifaces sh))) =
        Some (w\<lparr>pc := AtSelect, buf := d @ drop (length d) (buf w)\<rparr>,
              concat (map (fan_events sh w d src wr) [0..<length (sh_ifaces sh)]) @
              received_log sh w d src)"
    using fanout_run [OF assms(1) r, of 0 cancelled d src wr] by (simp add: worker_upd_swap)
  then show ?thesis
    using read_step [OF assms(3-6), of sh cancelled src]
    by (simp add: datagram_replies_def)
qed

lemma writes_fan_events:
  "writes (fan_events sh w d src wr j) = (if j = iIdx w then [] else [(sender_of sh w j, d)])"
  by (simp add: fan_events_def split: option.splits)

lemma writes_received_log: "writes (received_log sh w d src) = []"
  by (simp add: received_log_def)

lemma writes_fan:
  "writes (concat (map (fan_events sh w d src wr) js)) =
   map (\<lambda>j. (sender_of sh w j, d)) (filter (\<lambda>j. j \<noteq> iIdx w) js)"
  by (induction js) (simp_all add: writes_append writes_fan_events)

lemma sender_inj:
  assumes "wf_shared sh" and "in_range sh w"
    and "j < length (sh_ifaces sh)" and "k < length (sh_ifaces sh)"
    and "sender_of sh w j = sender_of sh w k"
  shows "j = k"
proof -
  have e: "entry (sh_senders sh) (gIdx w, j, pIdx w) = Some (sender_of sh w j)"
    "entry (sh_senders sh) (gIdx w, k, pIdx w) = Some (sender_of sh w k)"
    using wf_sender [OF assms(1,2,3)] wf_sender [OF assms(1,2,4)] by (simp_all add: entry_def)
  from assms(1) have "inj_regs (sh_conns sh, sh_senders sh)" by (simp add: wf_shared_def)
  then have "\<And>t t' c. entry (sh_senders sh) t = Some c \<Longrightarrow> entry (sh_senders sh) t' = Some c \<Longrightarrow> t = t'"
    unfolding inj_regs_def snd_conv by blast
  from this [OF e(1) e(2) [folded assms(5)]] show ?thesis by simp
qed

lemma peers_senders:
  assumes "wf_shared sh" and "in_range sh w"
  shows "distinct (map (sender_of sh w) (peers sh w))"
    and "sender_of sh w (iIdx w) \<notin> set (map (sender_of sh w) (peers sh w))"
proof -
  have "inj_on (sender_of sh w) {..<length (sh_ifaces sh)}"
    using sender_inj [OF assms] by (auto simp: inj_on_def)
  moreover have "set (peers sh w) \<subseteq> {..<length (sh_ifaces sh)}" by (auto simp: peers_def)
  ultimately have "inj_on (sender_of sh w) (set (peers sh w))" by (rule inj_on_subset)
  then show "distinct (map (sender_of sh w) (peers sh w))"
    by (simp add: distinct_map peers_def)
  show "sender_of sh w (iIdx w) \<notin> set (map (sender_of sh w) (peers sh w))"
  proof
    assume "sender_of sh w (iIdx w) \<in> set (map (sender_of sh w) (peers sh w))"
    then obtain j where j: "j < length (sh_ifaces sh)" "j \<noteq> iIdx w"
      "sender_of sh w (iIdx w) = sender_of sh w j" by (auto simp: peers_def)
    from assms(2) have "iIdx w < length (sh_ifaces sh)" by (simp add: in_range_def)
    from sender_inj [OF assms this j(1) j(3)] j(2) show False by simp
  qed
qed

lemma fanout_writes:
  assumes "wf_shared sh" and "in_range sh w"
    and "pc w = AtRead" and "lconn w = Some c" and "length (buf w) = BufferLen"
    and "length d \<le> BufferLen"
  shows "\<exists>w' evs.
           worker_run sh cancelled w (datagram_replies sh w d src wr) = Some (w', evs) \<and>
           pc w' = AtSelect \<and>
           writes evs = map (\<lambda>j. (sender_of sh w j, d)) (peers sh w) \<and>
           distinct (map fst (writes evs)) \<and>
           sender_of sh w (iIdx w) \<notin> set (map fst (writes evs))"
proof -
  let ?evs = "[ESetReadDeadline c, ERead c] @
               concat (map (fan_events sh w d src wr) [0..<length (sh_ifaces sh)]) @
               received_log sh w d src"
  have w: "writes ?evs = map (\<lambda>j. (sender_of sh w j, d)) (peers sh w)"
    by (simp add: writes_append writes_fan writes_received_log peers_def)
  have m: "map fst (writes ?evs) = map (sender_of sh w) (peers sh w)"
    unfolding w by (simp add: comp_def)
  have "distinct (map fst (writes ?evs))"
    and "sender_of sh w (iIdx w) \<notin> set (map fst (writes ?evs))"
    unfolding m by (rule peers_senders [OF assms(1,2)])+
  moreover have "pc (w\<lparr>pc := AtSelect, buf := d @ drop (length d) (buf w)\<rparr>) = AtSelect"
    by simp
  ultimately show ?thesis
    using w datagram_run [OF assms, of cancelled src wr] by blast
qed

lemma forward_error_logged:
  assumes "j \<in> set js" and "j \<noteq> iIdx w" and "wr j = Some err"
  shows "ELog (ForwardError (wgroup w) (sh_ifaces sh ! iIdx w) (sh_ifaces sh ! j)
                 (sh_destPorts sh ! pIdx w) err)
         \<in> set (concat (map (fan_events sh w d src wr) js))"
  using assms by (auto simp: fan_events_def intro!: bexI [where x = j])

text \<open>
  C5. A goroutine at its read receives a datagram \<open>d\<close> that fits the buffer, and any
  of the writes fail. The goroutine still makes
  the write to every interface other than its own, logs each failed write with the
  group, the two interfaces, the destination port and the error, and comes back to its
  \<open>select\<close>, from where, when the context is not cancelled, it goes to its next read.
\<close>

theorem write_failure_does_not_stop_fanout:
  assumes "wf_shared sh" and "in_range sh w"
    and "pc w = AtRead" and "lconn w = Some c" and "length (buf w) = BufferLen"
    and "length d \<le> BufferLen"
  shows "\<exists>w' evs.
           worker_run sh cancelled w (datagram_replies sh w d src wr) = Some (w', evs) \<and>
           map fst (writes evs) = map (sender_of sh w) (peers sh w) \<and>
           (\<forall>j err. j < length (sh_ifaces sh) \<and> j \<noteq> iIdx w \<and> wr j = Some err \<longrightarrow>
              ELog (ForwardError (wgroup w) (sh_ifaces sh ! iIdx w) (sh_ifaces sh ! j)
                      (sh_destPorts sh ! pIdx w) err) \<in> set evs) \<and>
           pc w' = AtSelect \<and>
           worker_step sh False NoReply w' = Some (w'\<lparr>pc := AtRead\<rparr>, [])"
proof -
  let ?evs = "[ESetReadDeadline c, ERead c] @
               concat (map (fan_events sh w d src wr) [0..<length (sh_ifaces sh)]) @
               received_log sh w d src"
  let ?w' = "w\<lparr>pc := AtSelect, buf := d @ drop (length d) (buf w)\<rparr>"
  have "map fst (writes ?evs) = map (sender_of sh w) (peers sh w)"
    by (simp add: writes_append writes_fan writes_received_log peers_def comp_def)
  moreover have "\<forall>j err. j < length (sh_ifaces sh) \<and> j \<noteq> iIdx w \<and> wr j = Some err \<longrightarrow>
              ELog (ForwardError (wgroup w) (sh_ifaces sh ! iIdx w) (sh_ifaces sh ! j)
                      (sh_destPorts sh ! pIdx w) err) \<in> set ?evs"
  proof (intro allI impI)
    fix j err assume "j < length (sh_ifaces sh) \<and> j \<noteq> iIdx w \<and> wr j = Some err"
    then have "ELog (ForwardError (wgroup w) (sh_ifaces sh ! iIdx w) (sh_ifaces sh ! j)
                 (sh_destPorts sh ! pIdx w) err)
         \<in> set (concat (map (fan_events sh w d src wr) [0..<length (sh_ifaces sh)]))"
      by (intro forward_error_logged) simp_all
    then show "ELog (ForwardError (wgroup w) (sh_ifaces sh ! iIdx w) (sh_ifaces sh ! j)
                      (sh_destPorts sh ! pIdx w) err) \<in> set ?evs" by simp
  qed
  moreover have "pc ?w' = AtSelect" by simp
  moreover have "worker_step sh False NoReply ?w' = Some (?w'\<lparr>pc := AtRead\<rparr>, [])"
    by (simp add: worker_step_def)
  ultimately show ?thesis
    using datagram_run [OF assms, of cancelled src wr] by blast
qed

lemma main_config_destPorts_length:
  "main_config fl = Inr cfg \<Longrightarrow> length (cfg_destPorts cfg) = length (cfg_ports cfg)"
  by (auto simp: main_config_def Let_def split: if_splits sum.splits)

lemma main_start_Ok:
  assumes "main_start net fl st = Ok (cfg, rs) st'"
  shows "main_config fl = Inr cfg"
    and "initializeConnections net (cfg_groups cfg) (cfg_ifaces cfg) (cfg_ports cfg)
           (cfg_destPorts cfg) st = Ok rs st'"
  using assms
  by (auto simp: main_start_def fatalf_def split: sum.splits outcome.splits)

lemma main_start_wf:
  assumes "main_start net fl st = Ok (cfg, rs) st'"
  shows "wf_shared (s_shared (init_sys cfg rs st'))"
proof -
  note i = initializeConnections_sound [OF main_start_Ok(2) [OF assms]]
  from i(1) i(2) main_config_destPorts_length [OF main_start_Ok(1) [OF assms]]
  show ?thesis
    by (simp add: wf_shared_def init_sys_def sound_def)
qed

lemma main_config_flags3: "main_config flags3 = Inr config3"
  by (simp add: main_config_def flags3_def config3_def parseCommaSeparated_def
      comma_def TrimSpace_def scan_defs Let_def)

lemma main_start_flags3:
  "main_start net_up flags3 proc0 =
     Ok (config3, regs3)
        \<lparr>clock = 12, nextConn = 6,
         trace =
           [EListen (str ''239.255.255.250'') 1900 (str ''eth0'') (Inr 0),
            ESetReadBuffer 0 BufferLen,
            EDial (str ''239.255.255.250'') (str ''eth0'') (str ''10.0.0.1'') 1900 (Inr 1),
            ELog (Joined (str ''239.255.255.250'') (str ''eth0'') 1900 (str ''10.0.0.1'') 1900),
            EListen (str ''239.255.255.250'') 1900 (str ''eth1'') (Inr 2),
            ESetReadBuffer 2 BufferLen,
            EDial (str ''239.255.255.250'') (str ''eth1'') (str ''10.0.0.1'') 1900 (Inr 3),
            ELog (Joined (str ''239.255.255.250'') (str ''eth1'') 1900 (str ''10.0.0.1'') 1900),
            EListen (str ''239.255.255.250'') 1900 (str ''eth2'') (Inr 4),
            ESetReadBuffer 4 BufferLen,
            EDial (str ''239.255.255.250'') (str ''eth2'') (str ''10.0.0.1'') 1900 (Inr 5),
            ELog (Joined (str ''239.255.255.250'') (str ''eth2'') 1900 (str ''10.0.0.1'') 1900)]\<rparr>"
  by (simp add: main_start_def main_config_flags3 config3_def initializeConnections_def
      groups_body_def ifaces_body_def ports_body_def firstIPv4Addr_def net_up_def proc0_def
      proc_defs make3_def set3_def regs3_def Let_def To4_def ipString_def itoa.simps str_def)

lemma shared3_eq: "s_shared (init_sys config3 regs3 st) = shared3"
  by (simp add: init_sys_def shared3_def config3_def)

lemma wf_shared3: "wf_shared shared3"
  using main_start_wf [OF main_start_flags3] by (simp add: shared3_eq)

lemma worker3_facts:
  "in_range shared3 worker3" "pc worker3 = AtRead" "lconn worker3 = Some 0"
  "length (buf worker3) = BufferLen" "length [72, 105 :: nat] \<le> BufferLen"
  by (simp_all add: in_range_def shared3_def worker3_def BufferLen_def)

lemma peers3: "peers shared3 worker3 = [1, 2]"
  by (simp add: peers_def shared3_def worker3_def)

lemma sender_of3: "sender_of shared3 worker3 (Suc 0) = 3" "sender_of shared3 worker3 2 = 5"
  by (simp_all add: sender_of_def entry_def at3_def at_def shared3_def regs3_def worker3_def)

theorem write_failure_does_not_stop_fanout_witness:
  "wf_shared shared3 \<and> in_range shared3 worker3 \<and> pc worker3 = AtRead \<and>
   lconn worker3 = Some 0 \<and> length (buf worker3) = BufferLen \<and>
   length [72, 105 :: nat] \<le> BufferLen \<and>
   (\<exists>w' evs. worker_run shared3 False worker3
                (datagram_replies shared3 worker3 [72, 105] src3
                   (\<lambda>j. if j = 1 then Some unreachable else None)) = Some (w', evs) \<and>
              map fst (writes evs) = [3, 5] \<and>
              ELog (ForwardError (str ''239.255.255.250'') (str ''eth0'') (str ''eth1'') 1900
                      unreachable) \<in> set evs \<and>
              pc w' = AtSelect)"
proof -
  from write_failure_does_not_stop_fanout [OF wf_shared3 worker3_facts,
      of False src3 "\<lambda>j. if j = 1 then Some unreachable else None"]
  obtain w' evs where
    r: "worker_run shared3 False worker3
          (datagram_replies shared3 worker3 [72, 105] src3
             (\<lambda>j. if j = 1 then Some unreachable else None)) = Some (w', evs)"
    and w: "map fst (writes evs) = map (sender_of shared3 worker3) (peers shared3 worker3)"
    and l: "\<forall>j err. j < length (sh_ifaces shared3) \<and> j \<noteq> iIdx worker3 \<and>
              (if j = 1 then Some unreachable else None) = Some err \<longrightarrow>
              ELog (ForwardError (wgroup worker3) (sh_ifaces shared3 ! iIdx worker3)
                      (sh_ifaces shared3 ! j) (sh_destPorts shared3 ! pIdx worker3) err)
              \<in> set evs"
    and p: "pc w' = AtSelect"
    by blast
  from l [rule_format, of 1 unreachable]
  have "ELog (ForwardError (str ''239.255.255.250'') (str ''eth0'') (str ''eth1'') 1900
                      unreachable) \<in> set evs"
    by (simp add: shared3_def worker3_def)
  with r w p wf_shared3 worker3_facts show ?thesis
    by (simp add: peers3 sender_of3)
qed

section \<open>Runs of the process\<close>

lemma worker_step_live:
  "worker_step sh c r w = Some (w', evs) \<Longrightarrow> pc w \<noteq> Done \<and> pc w \<noteq> Panicked"
  by (auto simp: worker_step_def)

lemma forward_log_ev: "forward_log sh w packet src j werr = Some evs \<Longrightarrow> list_all worker_ev evs"
  by (auto simp: forward_log_def split: option.splits if_splits)

lemma worker_step_effect:
  assumes "worker_step sh c r w = Some (w', evs)"
  shows "triple_of w' = triple_of w" and "list_all worker_ev evs"
  using assms
  by (auto simp: worker_step_def triple_of_def Let_def dest: forward_log_ev
      split: wpc.splits if_splits option.splits reply.splits readres.splits)

lemma wf_conn:
  assumes "wf_shared sh" and "in_range sh w"
  shows "\<exists>c. at3 (sh_conns sh) (gIdx w) (iIdx w) (pIdx w) = Some (Some c)"
proof -
  from assms have "covers (sh_conns sh, sh_senders sh) (gIdx w, iIdx w, pIdx w)"
    by (simp add: wf_shared_def in_range_def)
  then show ?thesis by (auto simp: covers_def entry_def split: option.splits)
qed

lemma worker_step_no_panic:
  assumes "wf_shared sh" and "in_range sh w" and "started_ok sh w"
    and "worker_step sh c r w = Some (w', evs)"
  shows "pc w' \<noteq> Panicked"
proof (cases "pc w")
  case AtStart
  from wf_conn [OF assms(1,2)] obtain x where
    "at3 (sh_conns sh) (gIdx w) (iIdx w) (pIdx w) = Some (Some x)" by blast
  with assms(2,4) AtStart show ?thesis
    by (auto simp: worker_step_def in_range_def at_def split: if_splits)
next
  case AtSelect
  with assms(4) show ?thesis by (auto simp: worker_step_def split: if_splits)
next
  case AtRead
  from wf_conn [OF assms(1,2)] obtain x where
    "at3 (sh_conns sh) (gIdx w) (iIdx w) (pIdx w) = Some (Some x)" by blast
  with assms(3) AtRead have "lconn w = Some x"
    by (simp add: started_ok_def entry_def triple_of_def)
  with assms(4) AtRead show ?thesis
    by (auto simp: worker_step_def Let_def split: if_splits reply.splits readres.splits)
next
  case (AtForward packet src j)
  show ?thesis
  proof (cases "j < length (sh_ifaces sh)")
    case False
    with assms(4) AtForward show ?thesis by (auto simp: worker_step_def split: if_splits)
  next
    case True
    from assms(4) AtForward True show ?thesis
      using wf_sender [OF assms(1,2) True] forward_log_wf [OF assms(1,2) True]
      by (auto simp: worker_step_def split: if_splits reply.splits)
  qed
next
  case Done
  with assms(4) show ?thesis by (simp add: worker_step_def)
next
  case Panicked
  with assms(4) show ?thesis by (simp add: worker_step_def)
qed

lemma worker_step_started:
  assumes "started_ok sh w" and "worker_step sh c r w = Some (w', evs)"
  shows "started_ok sh w'"
proof (cases "pc w = AtStart")
  case True
  with assms(2) show ?thesis
    by (auto simp: worker_step_def started_ok_def triple_of_def entry_def at_def
        split: if_splits option.splits)
next
  case False
  with assms show ?thesis
    by (auto simp: worker_step_def started_ok_def triple_of_def Let_def
        split: wpc.splits if_splits option.splits reply.splits readres.splits)
qed

lemma closes_append: "closes (xs @ ys) = closes xs @ closes ys"
  by (induction xs rule: closes.induct) simp_all

lemma closes_worker_ev: "list_all worker_ev evs \<Longrightarrow> closes evs = []"
  by (induction evs rule: closes.induct) simp_all

lemma quiet_no_close: "closes tr = [] \<Longrightarrow> quiet_after_close tr"
  by (induction tr rule: closes.induct) simp_all

lemma quiet_append_no_io:
  "quiet_after_close tr \<Longrightarrow> list_all (\<lambda>e. \<not> is_io e) evs \<Longrightarrow> quiet_after_close evs \<Longrightarrow>
   quiet_after_close (tr @ evs)"
  by (induction tr rule: quiet_after_close.induct) simp_all

lemma AllDone_worker_ev: "list_all worker_ev evs \<Longrightarrow> ELog AllDone \<notin> set evs"
  by (auto simp: list_all_iff)

lemma length_filter_update:
  "k < length xs \<Longrightarrow>
   length (filter P (xs[k := y])) + (if P (xs ! k) then 1 else 0) =
   length (filter P xs) + (if P y then 1 else 0)"
proof (induction xs arbitrary: k)
  case Nil
  then show ?case by simp
next
  case (Cons x xs)
  then show ?case by (cases k) auto
qed

lemma map_update_same:
  "k < length xs \<Longrightarrow> f y = f (xs ! k) \<Longrightarrow> map f (xs[k := y]) = map f xs"
  by (simp add: map_update list_update_same_conv)

lemma in_triples:
  "(g, i, p) \<in> set (triples gs is ps) \<longleftrightarrow> g < length gs \<and> i < length is \<and> p < length ps"
  by (auto simp: triples_def image_iff)

lemma until_panic_id: "PanicOp \<notin> set ops \<Longrightarrow> until_panic ops = ops"
  by (induction ops rule: until_panic.induct) simp_all

lemma in_concat_map: "x \<in> set (concat (map f xs)) \<longleftrightarrow> (\<exists>y \<in> set xs. x \<in> set (f y))"
  by auto

lemma close_cell_shape:
  assumes "shape3 cs G I P" and "shape3 ss G I P" and "g < G" and "i < I" and "p < P"
  shows "close_cell cs ss g i p =
           (case entry cs (g, i, p) of None \<Rightarrow> [] | Some c \<Rightarrow> [CloseOp c]) @
           (case entry ss (g, i, p) of None \<Rightarrow> [] | Some c \<Rightarrow> [CloseOp c])"
  using assms
  by (simp add: close_cell_def entry_shape [OF assms(1)] entry_shape [OF assms(2)]
      at3_shape [OF assms(2)] split: option.splits)

lemma closeConnections_shape:
  assumes "shape3 cs G I P" and "shape3 ss G I P"
  shows "PanicOp \<notin> set (closeConnections cs ss)"
    and "g < G \<Longrightarrow> i < I \<Longrightarrow> p < P \<Longrightarrow> entry cs (g, i, p) = Some c \<Longrightarrow>
         CloseOp c \<in> set (closeConnections cs ss)"
    and "g < G \<Longrightarrow> i < I \<Longrightarrow> p < P \<Longrightarrow> entry ss (g, i, p) = Some c \<Longrightarrow>
         CloseOp c \<in> set (closeConnections cs ss)"
proof -
  let ?all = "concat (map (\<lambda>g.
          concat (map (\<lambda>i.
            concat (map (\<lambda>p. close_cell cs ss g i p) [0..<length (cs ! g ! i)]))
            [0..<length (cs ! g)]))
          [0..<length cs])"
  have mem: "x \<in> set ?all \<longleftrightarrow> (\<exists>g < G. \<exists>i < I. \<exists>p < P. x \<in> set (close_cell cs ss g i p))" for x
    unfolding in_concat_map using shape3D [OF assms(1)] by (simp add: Bex_def)
  have np: "PanicOp \<notin> set ?all"
  proof
    assume "PanicOp \<in> set ?all"
    then obtain g i p where "g < G" "i < I" "p < P" "PanicOp \<in> set (close_cell cs ss g i p)"
      unfolding mem by blast
    then show False by (simp add: close_cell_shape [OF assms] split: option.splits)
  qed
  then have eq: "closeConnections cs ss = ?all"
    unfolding closeConnections_def by (rule until_panic_id)
  show "PanicOp \<notin> set (closeConnections cs ss)" unfolding eq by (rule np)
  show "CloseOp c \<in> set (closeConnections cs ss)"
    if "g < G" "i < I" "p < P" "entry cs (g, i, p) = Some c"
  proof -
    from that have "CloseOp c \<in> set (close_cell cs ss g i p)"
      by (simp add: close_cell_shape [OF assms])
    with that show ?thesis unfolding eq mem by blast
  qed
  show "CloseOp c \<in> set (closeConnections cs ss)"
    if "g < G" "i < I" "p < P" "entry ss (g, i, p) = Some c"
  proof -
    from that have "CloseOp c \<in> set (close_cell cs ss g i p)"
      by (simp add: close_cell_shape [OF assms])
    with that show ?thesis unfolding eq mem by blast
  qed
qed

lemma entry_in_range:
  "shape3 a G I P \<Longrightarrow> entry a (g, i, p) = Some c \<Longrightarrow> g < G \<and> i < I \<and> p < P"
  by (simp add: entry_shape split: if_splits)

lemma wf_close_ops:
  assumes "wf_shared (s_shared s)"
  shows "PanicOp \<notin> set (close_ops s)"
    and "entry (sh_conns (s_shared s)) t = Some c \<Longrightarrow> CloseOp c \<in> set (close_ops s)"
    and "entry (sh_senders (s_shared s)) t = Some c \<Longrightarrow> CloseOp c \<in> set (close_ops s)"
proof -
  from assms have sh:
    "shape3 (sh_conns (s_shared s)) (length (sh_groups (s_shared s)))
       (length (sh_ifaces (s_shared s))) (length (sh_ports (s_shared s)))"
    "shape3 (sh_senders (s_shared s)) (length (sh_groups (s_shared s)))
       (length (sh_ifaces (s_shared s))) (length (sh_ports (s_shared s)))"
    by (simp_all add: wf_shared_def)
  show "PanicOp \<notin> set (close_ops s)"
    unfolding close_ops_def by (rule closeConnections_shape(1) [OF sh])
  obtain g i p where t: "t = (g, i, p)" by (cases t)
  show "CloseOp c \<in> set (close_ops s)" if "entry (sh_conns (s_shared s)) t = Some c"
    using closeConnections_shape(2) [OF sh, of g i p c] entry_in_range [OF sh(1), of g i p c] that
    unfolding close_ops_def t by blast
  show "CloseOp c \<in> set (close_ops s)" if "entry (sh_senders (s_shared s)) t = Some c"
    using closeConnections_shape(3) [OF sh, of g i p c] entry_in_range [OF sh(2), of g i p c] that
    unfolding close_ops_def t by blast
qed

lemma triple_of_new_worker [simp]: "triple_of (new_worker t) = t"
  by (cases t) (simp add: new_worker_def triple_of_def)

lemma pc_new_worker [simp]: "pc (new_worker t) = AtStart"
  by (cases t) (simp add: new_worker_def)

lemma started_ok_new_worker [simp]: "started_ok sh (new_worker t)"
  by (simp add: started_ok_def)

lemma quiet_snoc_other: "quiet_after_close tr \<Longrightarrow> \<not> is_io e \<Longrightarrow> quiet_after_close (tr @ [e])"
  by (rule quiet_append_no_io) (simp_all, cases e, simp_all)

lemma inv_in_range:
  assumes "inv s" and "w \<in> set (s_workers s)"
  shows "in_range (s_shared s) w"
proof -
  have "set (map triple_of (s_workers s)) \<subseteq> set (all_triples s)"
  proof (cases "s_main s")
    case (MStartForwarding ts)
    with assms(1) have "map triple_of (s_workers s) @ ts = all_triples s" by (simp add: inv_def)
    from arg_cong [OF this, of set] show ?thesis by auto
  next
    case MWait
    with assms(1) show ?thesis by (simp add: inv_def)
  next
    case (MCloseConnections ops)
    with assms(1) show ?thesis by (simp add: inv_def)
  next
    case (MExited n)
    with assms(1) show ?thesis by (cases "n = 0") (simp_all add: inv_def)
  next
    case (MKilled sig)
    with assms(1) obtain ts where "map triple_of (s_workers s) @ ts = all_triples s"
      by (auto simp: inv_def)
    from arg_cong [OF this, of set] show ?thesis by auto
  qed
  with assms(2) have "triple_of w \<in> set (all_triples s)" by auto
  then show ?thesis
    by (simp add: all_triples_def triple_of_def in_triples in_range_def)
qed

lemma inv_main_step:
  assumes "inv s" and "main_step s = Some s'"
  shows "inv s'"
proof (cases "s_main s")
  case (MStartForwarding ts)
  show ?thesis
  proof (cases ts)
    case Nil
    with assms MStartForwarding show ?thesis
      by (auto simp: inv_def main_step_def closes_append all_triples_def quiet_snoc_other)
  next
    case (Cons t ts')
    obtain g i p where "t = (g, i, p)" by (cases t)
    with Cons assms MStartForwarding show ?thesis
      by (auto simp: inv_def main_step_def closes_append all_triples_def quiet_snoc_other)
  qed
next
  case MWait
  with assms have z: "s_wg s = 0" and s': "s' = s\<lparr>s_main := MCloseConnections (close_ops s)\<rparr>"
    by (auto simp: main_step_def close_ops_def split: if_splits)
  from assms(1) z have "filter (\<lambda>w. pc w \<noteq> Done) (s_workers s) = []" by (simp add: inv_def)
  then have "all_done s" by (auto simp: all_done_def filter_empty_conv)
  with assms(1) MWait show ?thesis
    unfolding s' by (simp add: inv_def all_done_def all_triples_def close_ops_def)
next
  case (MCloseConnections ops)
  show ?thesis
  proof (cases ops)
    case Nil
    with assms MCloseConnections show ?thesis
      by (auto simp: inv_def main_step_def closes_append all_triples_def quiet_snoc_other
          all_done_def close_ops_def)
  next
    case (Cons x ops')
    from assms(1) MCloseConnections Cons
    have "map CloseOp (closes (s_trace s)) @ x # ops' = close_ops s" by (simp add: inv_def)
    from arg_cong [OF this, of set] have "x \<in> set (close_ops s)" by auto
    with wf_close_ops(1) [of s] assms(1) obtain c where x: "x = CloseOp c"
      by (cases x) (auto simp: inv_def)
    with assms MCloseConnections Cons show ?thesis
      by (auto simp: inv_def main_step_def closes_append all_triples_def quiet_snoc_other
          all_done_def close_ops_def)
  qed
next
  case (MExited n)
  with assms(2) show ?thesis by (simp add: main_step_def)
next
  case (MKilled sig)
  with assms(2) show ?thesis by (simp add: main_step_def)
qed

lemma goroutine_stepE:
  assumes "goroutine_step k r s = Some s'"
  obtains w' evs where "k < length (s_workers s)"
    and "worker_step (s_shared s) (s_cancelled s) r (s_workers s ! k) = Some (w', evs)"
    and "s' = s\<lparr>s_workers := (s_workers s)[k := w'],
                 s_trace := s_trace s @ evs,
                 s_wg := (if pc w' = Done then s_wg s - 1 else s_wg s),
                 s_main := (if pc w' = Panicked then MExited 2 else s_main s)\<rparr>"
  using assms by (auto simp: goroutine_step_def split: if_splits option.splits)

lemma worker_ev_no_io_close:
  assumes "list_all worker_ev evs"
  shows "closes evs = []" and "ELog AllDone \<notin> set evs"
  using assms by (simp_all add: closes_worker_ev AllDone_worker_ev)

lemma inv_goroutine_step:
  assumes i: "inv s" and ne: "\<not> exited s" and st: "goroutine_step k r s = Some s'"
  shows "inv s'"
proof -
  from st obtain w' evs where k: "k < length (s_workers s)"
    and ws: "worker_step (s_shared s) (s_cancelled s) r (s_workers s ! k) = Some (w', evs)"
    and s': "s' = s\<lparr>s_workers := (s_workers s)[k := w'],
                 s_trace := s_trace s @ evs,
                 s_wg := (if pc w' = Done then s_wg s - 1 else s_wg s),
                 s_main := (if pc w' = Panicked then MExited 2 else s_main s)\<rparr>"
    by (rule goroutine_stepE)
  let ?w = "s_workers s ! k"
  from k have mem: "?w \<in> set (s_workers s)" by simp
  from i have wf: "wf_shared (s_shared s)" by (simp add: inv_def)
  from worker_step_live [OF ws] have live: "pc ?w \<noteq> Done" by simp
  from i mem have st0: "started_ok (s_shared s) ?w" by (simp add: inv_def)
  from worker_step_no_panic [OF wf inv_in_range [OF i mem] st0 ws]
  have np: "pc w' \<noteq> Panicked" .
  note eff = worker_step_effect [OF ws]
  note ev = worker_ev_no_io_close [OF eff(2)]
  have tri: "map triple_of ((s_workers s)[k := w']) = map triple_of (s_workers s)"
    using k eff(1) by (rule map_update_same)
  have nd: "\<not> all_done s" using mem live by (auto simp: all_done_def)
  from worker_step_started [OF st0 ws] have so: "started_ok (s_shared s) w'" .
  have nopanic: "\<forall>w \<in> set ((s_workers s)[k := w']).
      pc w \<noteq> Panicked \<and> started_ok (s_shared s) w"
    using i np so by (auto simp: inv_def dest!: set_update_subset_insert [THEN subsetD])
  have cnt: "(if pc w' = Done then s_wg s - 1 else s_wg s) =
        length (filter (\<lambda>w. pc w \<noteq> Done) ((s_workers s)[k := w']))"
    using length_filter_update [OF k, of "\<lambda>w. pc w \<noteq> Done" w'] live i
    by (auto simp: inv_def)
  have phase: "closes (s_trace s) = [] \<and> ELog AllDone \<notin> set (s_trace s)"
    using i ne nd by (cases "s_main s") (auto simp: inv_def exited_def)
  then have q: "quiet_after_close (s_trace s @ evs)"
    by (intro quiet_no_close) (simp add: closes_append ev)
  have hc: "\<not> s_cancelled s" if "s_handler s = HIdle"
    using i that by (auto simp: inv_def)
  from i ne nd phase show ?thesis
    unfolding s'
    by (cases "s_main s")
       (simp_all add: inv_def np nopanic cnt [symmetric] q tri closes_append ev all_triples_def
          exited_def hc)
qed

lemma inv_handler_step:
  assumes "inv s" and "\<not> exited s" and "handler_step s = Some s'"
  shows "inv s'"
proof -
  from assms(3) consider
      (recv) sig where "s_handler s = HWaiting"
        "s' = s\<lparr>s_sigchan := None, s_handler := HReceived sig\<rparr>"
    | (log) sig where "s_handler s = HReceived sig"
        "s' = s\<lparr>s_trace := s_trace s @ [ELog (ReceivedSignal sig)], s_handler := HLogged\<rparr>"
    | (cancel) "s_handler s = HLogged" "s' = s\<lparr>s_cancelled := True, s_handler := HDone\<rparr>"
    by (auto simp: handler_step_def split: handlerpc.splits option.splits)
  then show ?thesis
  proof cases
    case recv
    with assms(1,2) show ?thesis
      by (cases "s_main s")
         (simp_all add: inv_def all_done_def all_triples_def close_ops_def exited_def)
  next
    case log
    with assms(1,2) show ?thesis
      by (cases "s_main s")
         (simp_all add: inv_def all_done_def all_triples_def close_ops_def closes_append
            quiet_snoc_other exited_def)
  next
    case cancel
    with assms(1,2) show ?thesis
      by (cases "s_main s")
         (simp_all add: inv_def all_done_def all_triples_def close_ops_def exited_def)
  qed
qed

lemma inv_signal_step:
  assumes "inv s" and "\<not> exited s" and "signal_step sig s = Some s'"
  shows "inv s'"
proof -
  from assms(3) have "s' = s \<or> s' = s\<lparr>s_sigchan := Some sig\<rparr> \<or>
      s_handler s = HIdle \<and> s' = s\<lparr>s_main := MKilled sig\<rparr>"
    by (auto simp: signal_step_def split: if_splits)
  with assms(1,2) show ?thesis
    by (cases "s_main s")
       (auto simp: inv_def all_done_def all_triples_def close_ops_def exited_def)
qed

lemma inv_sys_step:
  assumes "inv s" and "sys_step s a = Some s'"
  shows "inv s'"
proof -
  from assms(2) have ne: "\<not> exited s" by (auto simp: sys_step_def split: if_splits)
  show ?thesis
  proof (cases a)
    case MainStep
    with assms ne show ?thesis by (auto simp: sys_step_def intro: inv_main_step)
  next
    case (WorkerStep k r)
    with assms ne show ?thesis by (auto simp: sys_step_def intro: inv_goroutine_step)
  next
    case HandlerStep
    with assms ne show ?thesis by (auto simp: sys_step_def intro: inv_handler_step)
  next
    case (Signal sig)
    with assms ne show ?thesis by (auto simp: sys_step_def intro: inv_signal_step)
  qed
qed

lemma inv_exec: "inv s \<Longrightarrow> exec s acts = Some s' \<Longrightarrow> inv s'"
  by (induction acts arbitrary: s) (auto split: option.splits intro: inv_sys_step)

lemma prov_ok_setup: "prov_ok e \<Longrightarrow> setup_ev e"
  by (cases e rule: prov_ok.cases) (simp_all split: logline.splits)

lemma failure_events_setup: "list_all setup_ev (failure_events f)"
  by (cases f) (simp_all add: failure_events_def)

lemma setup_trace:
  assumes "list_all setup_ev tr"
  shows "closes tr = []" and "ELog AllDone \<notin> set tr" and "quiet_after_close tr"
    and "EGo g i p \<notin> set tr"
proof -
  from assms show c: "closes tr = []"
    by (induction tr rule: closes.induct) simp_all
  from assms show "ELog AllDone \<notin> set tr" "EGo g i p \<notin> set tr" by (auto simp: list_all_iff)
  from c show "quiet_after_close tr" by (rule quiet_no_close)
qed

lemma main_start_setup:
  assumes "list_all setup_ev (trace st)"
  shows "case main_start net fl st of
           Ok x st' \<Rightarrow> list_all setup_ev (trace st')
         | Fatal f st' \<Rightarrow> list_all setup_ev (trace st')
         | Panic st' \<Rightarrow> list_all setup_ev (trace st')"
proof -
  obtain evs where e: "extends_by (trace st) (main_start net fl st) evs"
    using main_start_trace by blast
  then have "list_all setup_ev evs" by (auto simp: extends_by_def list_all_iff prov_ok_setup)
  with e assms failure_events_setup show ?thesis
    by (cases "main_start net fl st") (auto simp: extends_by_def)
qed

lemma wf_shared_empty:
  "wf_shared \<lparr>sh_conns = [], sh_senders = [], sh_groups = [], sh_ifaces = [],
               sh_ports = [], sh_destPorts = [], sh_verbose = False\<rparr>"
  by (simp add: wf_shared_def shape3_def inj_regs_def entry_def at3_def at_def)

lemma boot_setup: "list_all setup_ev (s_trace (boot net fl))"
  using main_start_setup [of proc0 net fl]
  by (cases "main_start net fl proc0") (auto simp: boot_def init_sys_def dead_sys_def proc0_def)

lemma inv_boot: "inv (boot net fl)"
proof (cases "main_start net fl proc0")
  case (Ok x st)
  obtain cfg rs where x: "x = (cfg, rs)" by (cases x)
  from main_start_wf [OF Ok [unfolded x]] boot_setup [of net fl] Ok x
  show ?thesis
    using setup_trace(1-3) [of "trace st"]
    by (simp add: inv_def boot_def init_sys_def all_triples_def)
next
  case (Fatal f st)
  with boot_setup [of net fl] setup_trace(1-3) [of "trace st"] wf_shared_empty show ?thesis
    by (simp add: inv_def boot_def dead_sys_def)
next
  case (Panic st)
  with boot_setup [of net fl] setup_trace(1-3) [of "trace st"] wf_shared_empty show ?thesis
    by (simp add: inv_def boot_def dead_sys_def)
qed

lemma inv_run: "run net fl acts = Some s \<Longrightarrow> inv s"
  unfolding run_def by (rule inv_exec [OF inv_boot])

lemma worker_ev_not_setup: "worker_ev e \<Longrightarrow> \<not> setup_ev e"
  by (cases e rule: worker_ev.cases) simp_all

lemma sys_step_trace:
  assumes "sys_step s a = Some s'"
  shows "s_shared s' = s_shared s \<and>
         (\<exists>evs. s_trace s' = s_trace s @ evs \<and> list_all (\<lambda>e. \<not> setup_ev e) evs)"
proof (cases a)
  case MainStep
  with assms have m: "main_step s = Some s'" by (simp add: sys_step_def split: if_splits)
  show ?thesis
  proof (cases "s_main s")
    case (MStartForwarding ts)
    with m show ?thesis
      by (cases ts) (auto simp: main_step_def split: prod.splits)
  next
    case MWait
    with m show ?thesis by (auto simp: main_step_def split: if_splits)
  next
    case (MCloseConnections ops)
    with m show ?thesis
      by (cases ops) (auto simp: main_step_def split: closeop.splits)
  next
    case (MExited n)
    with m show ?thesis by (simp add: main_step_def)
  next
    case (MKilled sig)
    with m show ?thesis by (simp add: main_step_def)
  qed
next
  case (WorkerStep k r)
  with assms have "goroutine_step k r s = Some s'" by (simp add: sys_step_def split: if_splits)
  then obtain w' evs where
    ws: "worker_step (s_shared s) (s_cancelled s) r (s_workers s ! k) = Some (w', evs)"
    and s': "s' = s\<lparr>s_workers := (s_workers s)[k := w'],
                 s_trace := s_trace s @ evs,
                 s_wg := (if pc w' = Done then s_wg s - 1 else s_wg s),
                 s_main := (if pc w' = Panicked then MExited 2 else s_main s)\<rparr>"
    by (rule goroutine_stepE)
  from worker_step_effect(2) [OF ws] have "list_all (\<lambda>e. \<not> setup_ev e) evs"
    by (auto simp: list_all_iff worker_ev_not_setup)
  then show ?thesis unfolding s' by simp
next
  case HandlerStep
  with assms show ?thesis
    by (auto simp: sys_step_def handler_step_def split: if_splits handlerpc.splits option.splits)
next
  case (Signal sig)
  with assms show ?thesis
    by (auto simp: sys_step_def signal_step_def split: if_splits)
qed

lemma exec_trace:
  assumes "exec s acts = Some s'"
  shows "s_shared s' = s_shared s \<and>
         (\<exists>evs. s_trace s' = s_trace s @ evs \<and> list_all (\<lambda>e. \<not> setup_ev e) evs)"
  using assms
proof (induction acts arbitrary: s)
  case Nil
  then show ?case by simp
next
  case (Cons a acts)
  then obtain s1 where s1: "sys_step s a = Some s1" and e: "exec s1 acts = Some s'"
    by (auto split: option.splits)
  from sys_step_trace [OF s1] Cons.IH [OF e] show ?case by auto
qed

lemma exec_exited: "exited s \<Longrightarrow> exec s acts = Some s' \<Longrightarrow> acts = [] \<and> s' = s"
  by (cases acts) (simp_all add: sys_step_def)

section \<open>Failure of a socket at start-up\<close>

lemma boot_cases:
  obtains (ok) cfg rs st evs where "main_start net fl proc0 = Ok (cfg, rs) st"
      "boot net fl = init_sys cfg rs st" "trace st = evs" "list_all prov_ok evs"
    | (fatal) f st evs where "main_start net fl proc0 = Fatal f st"
      "boot net fl = dead_sys 1 st"
      "trace st = evs @ failure_events f @ [ELog (FatalLine f)]" "list_all prov_ok evs"
    | (panic) st evs where "main_start net fl proc0 = Panic st"
      "boot net fl = dead_sys 2 st" "trace st = evs" "list_all prov_ok evs"
proof -
  obtain evs where e: "extends_by (trace proc0) (main_start net fl proc0) evs"
    using main_start_trace by blast
  show ?thesis
  proof (cases "main_start net fl proc0")
    case (Ok x st)
    obtain cfg rs where "x = (cfg, rs)" by (cases x)
    with Ok e ok [of cfg rs st evs] show ?thesis
      by (simp add: extends_by_def boot_def proc0_def)
  next
    case (Fatal f st)
    with e fatal [of f st evs] show ?thesis
      by (simp add: extends_by_def boot_def proc0_def)
  next
    case (Panic st)
    with e panic [of st evs] show ?thesis
      by (simp add: extends_by_def boot_def proc0_def)
  qed
qed







section \<open>The registry over a run; progress of the process\<close>


lemma main_start_proc3: "main_start net_up flags3 proc0 = Ok (config3, regs3) proc3"
  by (simp add: main_start_flags3 proc3_def)

lemma run_boot: "run net fl acts = Some s \<Longrightarrow> main_start net fl proc0 = Ok (cfg, rs) st \<Longrightarrow>
  exec (init_sys cfg rs st) acts = Some s"
  by (simp add: run_def boot_def)

lemma inv_closed:
  assumes "inv s" and "closes (s_trace s) \<noteq> []"
  shows "all_done s" and "map triple_of (s_workers s) = all_triples s"
  using assms by (cases "s_main s"; simp add: inv_def split: if_splits)+




lemma worker_step_decrease:
  assumes "worker_step sh True r w = Some (w', evs)"
  shows "wmeasure (length (sh_ifaces sh)) w' < wmeasure (length (sh_ifaces sh)) w"
  using assms
  by (auto simp: worker_step_def wmeasure_def Let_def
      split: wpc.splits if_splits option.splits reply.splits readres.splits)

lemma worker_step_ready:
  assumes "pc w \<noteq> Done" and "pc w \<noteq> Panicked"
  shows "worker_step sh c (ready_reply sh w) w \<noteq> None"
  using assms
  by (auto simp: worker_step_def ready_reply_def isTimeout_def Let_def
      split: wpc.splits option.splits)

lemma sum_list_update_map:
  "k < length xs \<Longrightarrow>
   sum_list (map f (xs[k := y])) + f (xs ! k) = sum_list (map f xs) + (f y :: nat)"
proof (induction xs arbitrary: k)
  case Nil
  then show ?case by simp
next
  case (Cons x xs)
  then show ?case by (cases k) auto
qed

lemma steps_left_main_step:
  assumes "main_step s = Some s'"
  shows "steps_left s' < steps_left s \<and> s_cancelled s' = s_cancelled s"
proof (cases "s_main s")
  case (MStartForwarding ts)
  with assms show ?thesis
    by (cases ts)
       (auto simp: main_step_def steps_left_def close_ops_def wmeasure_def
          split: handlerpc.splits)
next
  case MWait
  with assms show ?thesis
    by (auto simp: main_step_def steps_left_def close_ops_def split: if_splits)
next
  case (MCloseConnections ops)
  with assms show ?thesis
    by (cases ops)
       (auto simp: main_step_def steps_left_def close_ops_def split: closeop.splits)
next
  case (MExited n)
  with assms show ?thesis by (simp add: main_step_def)
next
  case (MKilled sig)
  with assms show ?thesis by (simp add: main_step_def)
qed

lemma steps_left_goroutine_step:
  assumes "s_cancelled s" and "goroutine_step k r s = Some s'"
  shows "steps_left s' < steps_left s \<and> s_cancelled s'"
proof -
  from assms(2) obtain w' evs where k: "k < length (s_workers s)"
    and ws: "worker_step (s_shared s) (s_cancelled s) r (s_workers s ! k) = Some (w', evs)"
    and s': "s' = s\<lparr>s_workers := (s_workers s)[k := w'],
                 s_trace := s_trace s @ evs,
                 s_wg := (if pc w' = Done then s_wg s - 1 else s_wg s),
                 s_main := (if pc w' = Panicked then MExited 2 else s_main s)\<rparr>"
    by (rule goroutine_stepE)
  let ?n = "length (sh_ifaces (s_shared s))"
  from worker_step_decrease [OF ws [unfolded assms(1) [THEN eqTrueI]]]
  have d: "wmeasure ?n w' < wmeasure ?n (s_workers s ! k)" .
  from sum_list_update_map [OF k, of "wmeasure ?n" w'] d
  have "sum_list (map (wmeasure ?n) ((s_workers s)[k := w'])) <
        sum_list (map (wmeasure ?n) (s_workers s))" by linarith
  then show ?thesis
    unfolding s' using assms(1)
    by (cases "s_main s") (auto simp: steps_left_def close_ops_def)
qed

lemma steps_left_handler_step:
  assumes "handler_step s = Some s'"
  shows "steps_left s' < steps_left s \<and> (s_cancelled s \<longrightarrow> s_cancelled s')"
  using assms
  by (auto simp: handler_step_def steps_left_def close_ops_def
      split: handlerpc.splits option.splits)

lemma steps_left_signal_step:
  assumes "signal_step sig s = Some s'"
  shows "steps_left s' \<le> steps_left s \<and> s_cancelled s' = s_cancelled s"
  using assms
  by (auto simp: signal_step_def steps_left_def close_ops_def split: if_splits)

lemma steps_left_sys_step:
  assumes "s_cancelled s" and "sys_step s a = Some s'"
  shows "steps_left s' + (if program_step a then 1 else 0) \<le> steps_left s \<and> s_cancelled s'"
proof (cases a)
  case MainStep
  with assms steps_left_main_step [of s s'] show ?thesis
    by (auto simp: sys_step_def split: if_splits)
next
  case (WorkerStep k r)
  with assms steps_left_goroutine_step [of s k r s'] show ?thesis
    by (auto simp: sys_step_def split: if_splits)
next
  case HandlerStep
  with assms steps_left_handler_step [of s s'] show ?thesis
    by (auto simp: sys_step_def split: if_splits)
next
  case (Signal sig)
  with assms steps_left_signal_step [of sig s s'] show ?thesis
    by (auto simp: sys_step_def split: if_splits)
qed

lemma steps_left_exec:
  assumes "s_cancelled s" and "exec s acts = Some s'"
  shows "steps_left s' + length (filter program_step acts) \<le> steps_left s"
  using assms
proof (induction acts arbitrary: s)
  case Nil
  then show ?case by simp
next
  case (Cons a acts)
  then obtain s1 where s1: "sys_step s a = Some s1" and e: "exec s1 acts = Some s'"
    by (auto split: option.splits)
  from steps_left_sys_step [OF Cons.prems(1) s1]
  have "steps_left s1 + (if program_step a then 1 else 0) \<le> steps_left s" "s_cancelled s1"
    by simp_all
  with Cons.IH [OF this(2) e] show ?case by (cases "program_step a") simp_all
qed

lemma no_deadlock:
  assumes "inv s" and "\<not> exited s"
  shows "\<exists>a. program_step a \<and> sys_step s a \<noteq> None"
proof (cases "main_step s")
  case (Some s')
  with assms(2) have "program_step MainStep \<and> sys_step s MainStep \<noteq> None"
    by (simp add: sys_step_def)
  then show ?thesis by blast
next
  case None
  with assms(2) have w: "s_main s = MWait" and "s_wg s \<noteq> 0"
    by (auto simp: main_step_def exited_def split: mainpc.splits list.splits closeop.splits if_splits)
  with assms(1) have "filter (\<lambda>w. pc w \<noteq> Done) (s_workers s) \<noteq> []" by (auto simp: inv_def)
  then obtain w where m: "w \<in> set (s_workers s)" and live: "pc w \<noteq> Done"
    by (auto simp: filter_empty_conv)
  from m obtain k where k: "k < length (s_workers s)" "s_workers s ! k = w"
    by (auto simp: in_set_conv_nth)
  from assms(1) m have "pc w \<noteq> Panicked" by (simp add: inv_def)
  from worker_step_ready [OF live this, of "s_shared s" "s_cancelled s"] k assms(2)
  have "program_step (WorkerStep k (ready_reply (s_shared s) w)) \<and>
        sys_step s (WorkerStep k (ready_reply (s_shared s) w)) \<noteq> None"
    by (auto simp: sys_step_def goroutine_step_def)
  then show ?thesis by blast
qed

lemma sys_step_exit_status:
  assumes "inv s" and "sys_step s a = Some s'" and "s_main s' = MExited n"
  shows "n = 0"
proof -
  from assms(2) have ne: "\<not> exited s" by (auto simp: sys_step_def split: if_splits)
  from inv_sys_step [OF assms(1,2)] have i': "inv s'" .
  show ?thesis
  proof (rule ccontr)
    assume n: "n \<noteq> 0"
    with i' assms(3) have w': "s_workers s' = []" by (simp add: inv_def)
    show False
    proof (cases a)
      case MainStep
      with assms(2) ne have m: "main_step s = Some s'" by (simp add: sys_step_def)
      show False
      proof (cases "s_main s")
        case (MStartForwarding ts)
        with m assms(3) show False by (cases ts) (auto simp: main_step_def)
      next
        case MWait
        with m assms(3) show False by (auto simp: main_step_def split: if_splits)
      next
        case (MCloseConnections ops)
        show False
        proof (cases ops)
          case Nil
          with m assms(3) n MCloseConnections show False by (auto simp: main_step_def)
        next
          case (Cons x ops')
          from assms(1) MCloseConnections Cons
          have "map CloseOp (closes (s_trace s)) @ x # ops' = close_ops s" by (simp add: inv_def)
          from arg_cong [OF this, of set] have "x \<in> set (close_ops s)" by auto
          with wf_close_ops(1) [of s] assms(1) obtain c where "x = CloseOp c"
            by (cases x) (auto simp: inv_def)
          with m assms(3) MCloseConnections Cons show False by (auto simp: main_step_def)
        qed
      next
        case (MExited k)
        with ne show False by (simp add: exited_def)
      next
        case (MKilled sig)
        with ne show False by (simp add: exited_def)
      qed
    next
      case (WorkerStep k r)
      with assms(2) ne have "goroutine_step k r s = Some s'" by (simp add: sys_step_def)
      then obtain w' evs where "k < length (s_workers s)"
        "s_workers s' = (s_workers s)[k := w']"
        by (auto elim!: goroutine_stepE)
      with w' show False by simp
    next
      case HandlerStep
      with assms(2,3) ne show False
        by (auto simp: sys_step_def handler_step_def exited_def
            split: handlerpc.splits option.splits)
    next
      case (Signal sig)
      with assms(2,3) ne show False
        by (auto simp: sys_step_def signal_step_def exited_def split: if_splits)
    qed
  qed
qed

lemma exec_exit_status:
  assumes "inv s" and "\<not> exited s" and "exec s acts = Some s'" and "s_main s' = MExited n"
  shows "n = 0"
  using assms
proof (induction acts arbitrary: s)
  case Nil
  then show ?case by (simp add: exited_def)
next
  case (Cons a acts)
  then obtain s1 where s1: "sys_step s a = Some s1" and e: "exec s1 acts = Some s'"
    by (auto split: option.splits)
  show ?case
  proof (cases "exited s1")
    case True
    from exec_exited [OF True e] have "s' = s1" by simp
    with sys_step_exit_status [OF Cons.prems(1) s1] Cons.prems(4) show ?thesis by simp
  next
    case False
    from Cons.IH [OF inv_sys_step [OF Cons.prems(1) s1] False e Cons.prems(4)] show ?thesis .
  qed
qed

lemma signal_to_cancel:
  assumes "\<not> exited s" and "s_handler s = HWaiting" and "s_sigchan s = None"
  shows "exec s [Signal sig, HandlerStep, HandlerStep, HandlerStep] =
         Some (s\<lparr>s_sigchan := None, s_trace := s_trace s @ [ELog (ReceivedSignal sig)],
                 s_cancelled := True, s_handler := HDone\<rparr>)"
  using assms
  by (simp add: sys_step_def signal_step_def handler_step_def exited_def)

lemma main_config_flags1: "main_config flags1 = Inr config1"
  by (simp add: main_config_def flags1_def config1_def parseCommaSeparated_def
      comma_def TrimSpace_def scan_defs Let_def)

lemma main_start_flags1: "main_start net_up flags1 proc0 = Ok (config1, regs1) proc1"
  by (simp add: main_start_def main_config_flags1 config1_def initializeConnections_def
      groups_body_def ifaces_body_def ports_body_def firstIPv4Addr_def net_up_def proc0_def
      proc_defs make3_def set3_def regs1_def Let_def To4_def ipString_def itoa.simps str_def
      proc1_def)

lemmas step_defs = sys_step_def exited_def main_step_def goroutine_step_def handler_step_def
  signal_step_def worker_step_def new_worker_def at3_def at_def closeConnections_def
  close_cell_def isTimeout_def

lemma boot1: "boot net_up flags1 = init_sys config1 regs1 proc1"
  by (simp add: boot_def main_start_flags1)

lemma run1_read_error:
  "\<exists>s. run net_up flags1 read_error_schedule = Some s \<and> s_main s = MExited 0 \<and>
       \<not> s_cancelled s \<and> s_handler s = HWaiting \<and> s_sigchan s = None \<and>
       s_trace s = trace proc1 @
         [EGo 0 0 0, ENotify, ESetReadDeadline 0, ERead 0,
          ELog (ReadError (str ''239.255.255.250'') (str ''eth0'') 1900 connection_reset),
          EClose 0, EClose 1, ELog AllDone]"
  by (simp add: run_def boot1 read_error_schedule_def init_sys_def triples_def config1_def
      regs1_def step_defs connection_reset_def)


section \<open>A required flag of commas and white space\<close>


lemma triples_empty:
  assumes "gs = [] \<or> is = [] \<or> ps = []"
  shows "triples gs is ps = []"
proof -
  have "t \<notin> set (triples gs is ps)" for t
    using assms in_triples [of "fst t" "fst (snd t)" "snd (snd t)" gs "is" ps] by auto
  note n = this
  show ?thesis
  proof (cases "triples gs is ps")
    case Nil
    then show ?thesis .
  next
    case (Cons a as)
    with n [of a] show ?thesis by simp
  qed
qed

lemma closeConnections_empty:
  assumes "shape3 cs G I P" and "G = 0 \<or> I = 0 \<or> P = 0"
  shows "closeConnections cs ss = []"
proof -
  let ?all = "concat (map (\<lambda>g.
          concat (map (\<lambda>i.
            concat (map (\<lambda>p. close_cell cs ss g i p) [0..<length (cs ! g ! i)]))
            [0..<length (cs ! g)]))
          [0..<length cs])"
  have "x \<notin> set ?all" for x
    unfolding in_concat_map using shape3D [OF assms(1)] assms(2) by (auto simp: Bex_def)
  note n = this
  have e: "?all = []"
  proof (cases ?all)
    case Nil
    then show ?thesis .
  next
    case (Cons a as)
    with n [of a] show ?thesis by simp
  qed
  show ?thesis unfolding closeConnections_def e by simp
qed

lemma entry_empty:
  assumes "shape3 a G I P" and "G = 0 \<or> I = 0 \<or> P = 0"
  shows "entry a t = None"
proof (cases t)
  case (fields g i p)
  with entry_in_range [OF assms(1), of g i p] assms(2) show ?thesis
    by (cases "entry a (g, i, p)") auto
qed

lemma ifaces_loop_no_ports:
  assumes "ifaces_loop net gc [] dps i rest rs st = Ok rs' st'"
  shows "rs' = rs \<and> trace st' = trace st"
  using assms
proof (induction rest arbitrary: i st)
  case Nil
  then show ?case by simp
next
  case (Cons n rest)
  from Cons.prems obtain rs1 st1 where
    b: "ifaces_body net gc [] dps i n rs st = Ok rs1 st1"
    and l: "ifaces_loop net gc [] dps (Suc i) rest rs1 st1 = Ok rs' st'"
    by (simp split: outcome.splits)
  from b obtain ifi lip st0 where "trace st0 = trace st"
    "ports_loop net gc (i, n, ifi, lip) dps 0 [] rs st0 = Ok rs1 st1"
    by (rule ifaces_body_Ok)
  then have "rs1 = rs" "trace st1 = trace st" by simp_all
  with Cons.IH [of "Suc i" st1] l show ?case by simp
qed

lemma groups_loop_empty:
  assumes "groups_loop net ifaces ports dps g rest rs st = Ok rs' st'"
    and "ifaces = [] \<or> ports = []"
  shows "rs' = rs \<and> trace st' = trace st"
  using assms(1)
proof (induction rest arbitrary: g st)
  case Nil
  then show ?case by simp
next
  case (Cons grp rest)
  from Cons.prems obtain rs1 st1 where
    b: "groups_body net ifaces ports dps g grp rs st = Ok rs1 st1"
    and l: "groups_loop net ifaces ports dps (Suc g) rest rs1 st1 = Ok rs' st'"
    by (simp split: outcome.splits)
  note i = groups_body_Ok [OF b]
  have "rs1 = rs \<and> trace st1 = trace st"
  proof (cases "ifaces = []")
    case True
    with i show ?thesis by simp
  next
    case False
    with assms(2) have "ports = []" by simp
    with i ifaces_loop_no_ports show ?thesis by blast
  qed
  with Cons.IH [of "Suc g" st1] l show ?case by simp
qed

lemma groups_loop_no_ifaces:
  assumes "\<forall>grp \<in> set rest. ParseIP net grp \<noteq> []"
  shows "groups_loop net [] ports dps g rest rs st = Ok rs st"
  using assms by (induction rest arbitrary: g) (simp_all add: groups_body_def Let_def)

lemma initializeConnections_empty:
  assumes "initializeConnections net groups ifaces ports dps st = Ok rs st'"
    and "groups = [] \<or> ifaces = [] \<or> ports = []"
  shows "trace st' = trace st" and "entry (fst rs) t = None" and "entry (snd rs) t = None"
proof -
  have z: "length groups = 0 \<or> length ifaces = 0 \<or> length ports = 0"
    using assms(2) by simp
  from initializeConnections_sound(1) [OF assms(1)]
  have sh: "shape3 (fst rs) (length groups) (length ifaces) (length ports)"
    "shape3 (snd rs) (length groups) (length ifaces) (length ports)"
    by (simp_all add: sound_def)
  from entry_empty [OF sh(1) z] show "entry (fst rs) t = None" .
  from entry_empty [OF sh(2) z] show "entry (snd rs) t = None" .
  show "trace st' = trace st"
  proof (cases "groups = []")
    case True
    with assms(1) show ?thesis by (auto simp: initializeConnections_def Let_def)
  next
    case False
    with assms(2) have "ifaces = [] \<or> ports = []" by simp
    from groups_loop_empty [OF assms(1) [unfolded initializeConnections_def Let_def] this]
    show ?thesis by simp
  qed
qed

lemma main_config_comma_space:
  assumes "main_config fl = Inr cfg"
  shows "commaSpaceOnly (ifacesFlag fl) \<Longrightarrow> cfg_ifaces cfg = []"
    and "commaSpaceOnly (portsFlag fl) \<Longrightarrow> cfg_ports cfg = []"
    and "commaSpaceOnly (groupsFlag fl) \<Longrightarrow> cfg_groups cfg = []"
  using assms
  by (auto simp: main_config_def Let_def parseCommaSeparated_comma_space parsePorts_def
      split: if_splits sum.splits)

lemma inv_no_triples:
  assumes "inv s" and "all_triples s = []"
  shows "s_workers s = []" and "closes (s_trace s) = []"
proof -
  from assms(1) have wf: "wf_shared (s_shared s)" by (simp add: inv_def)
  have "triples (sh_groups (s_shared s)) (sh_ifaces (s_shared s)) (sh_ports (s_shared s)) = []"
    using assms(2) by (simp add: all_triples_def)
  then have z: "length (sh_groups (s_shared s)) = 0 \<or> length (sh_ifaces (s_shared s)) = 0 \<or>
                length (sh_ports (s_shared s)) = 0"
    using in_triples [of 0 0 0 "sh_groups (s_shared s)" "sh_ifaces (s_shared s)"
        "sh_ports (s_shared s)"] by auto
  from wf have "shape3 (sh_conns (s_shared s)) (length (sh_groups (s_shared s)))
      (length (sh_ifaces (s_shared s))) (length (sh_ports (s_shared s)))"
    by (simp add: wf_shared_def)
  from closeConnections_empty [OF this z] have c: "close_ops s = []" by (simp add: close_ops_def)
  from assms show "s_workers s = []"
    by (cases "s_main s") (auto simp: inv_def split: if_splits)
  from assms(1) c show "closes (s_trace s) = []"
    by (cases "s_main s") (auto simp: inv_def split: if_splits)
qed

lemma zero_run:
  assumes "triples (cfg_groups cfg) (cfg_ifaces cfg) (cfg_ports cfg) = []"
    and "closeConnections (fst rs) (snd rs) = []"
  shows "exec (init_sys cfg rs st) [MainStep, MainStep, MainStep] =
         Some ((init_sys cfg rs st)
                 \<lparr>s_handler := HWaiting, s_trace := trace st @ [ENotify, ELog AllDone],
                  s_main := MExited 0\<rparr>)"
  using assms by (simp add: init_sys_def sys_step_def exited_def main_step_def)

lemma required_flag_given:
  "ifacesFlag fl \<noteq> [] \<Longrightarrow> main_config fl \<noteq> Inl NoInterfacesSpecified"
  "portsFlag fl \<noteq> [] \<Longrightarrow> main_config fl \<noteq> Inl NoPortsSpecified"
  "groupsFlag fl \<noteq> [] \<Longrightarrow> main_config fl \<noteq> Inl NoGroupsSpecified"
  by (auto simp: main_config_def Let_def split: if_splits sum.splits)

lemma main_start_no_groups:
  assumes "main_config fl = Inr cfg" and "cfg_groups cfg = []"
  shows "\<exists>rs. main_start net fl st = Ok (cfg, rs) st"
  using assms by (simp add: main_start_def initializeConnections_def Let_def)

lemma main_start_no_ifaces:
  assumes "main_config fl = Inr cfg" and "cfg_ifaces cfg = []"
    and "\<forall>grp \<in> set (cfg_groups cfg). ParseIP net grp \<noteq> []"
  shows "\<exists>rs. main_start net fl st = Ok (cfg, rs) st"
  using assms
  by (simp add: main_start_def initializeConnections_def Let_def groups_loop_no_ifaces)

lemma ifaces_loop_no_ports_Ok:
  assumes "resolves net rest"
  shows "\<exists>st'. ifaces_loop net gc [] dps i rest rs st = Ok rs st'"
  using assms
proof (induction rest arbitrary: i st)
  case Nil
  then show ?case by simp
next
  case (Cons n rest)
  from Cons.prems
  have h: "\<forall>t. \<exists>ifi. InterfaceByName net t n = Inr ifi \<and>
             (\<forall>t'. \<exists>addrs l. Addrs net t' ifi = Inr addrs \<and>
                firstIPv4Addr_loop addrs = Some l)"
    and r: "resolves net rest"
    by (simp_all add: resolves_def)
  from h obtain ifi where i: "InterfaceByName net (clock st) n = Inr ifi"
    and a: "\<forall>t'. \<exists>addrs l. Addrs net t' ifi = Inr addrs \<and> firstIPv4Addr_loop addrs = Some l"
    by blast
  from a obtain addrs l where "Addrs net (clock (tick st)) ifi = Inr addrs"
    "firstIPv4Addr_loop addrs = Some l" by blast
  with i have "ifaces_body net gc [] dps i n rs st = Ok rs (tick (tick st))"
    by (simp add: ifaces_body_def firstIPv4Addr_def)
  with Cons.IH [OF r, of "Suc i" "tick (tick st)"] show ?case by simp
qed

lemma groups_loop_no_ports_Ok:
  assumes "resolves net ifaces" and "\<forall>grp \<in> set rest. ParseIP net grp \<noteq> []"
  shows "\<exists>st'. groups_loop net ifaces [] dps g rest rs st = Ok rs st'"
  using assms(2)
proof (induction rest arbitrary: g st)
  case Nil
  then show ?case by simp
next
  case (Cons grp rest)
  from ifaces_loop_no_ports_Ok [OF assms(1), of "(g, grp, ParseIP net grp)" dps 0 rs st]
  obtain st1 where
    "ifaces_loop net (g, grp, ParseIP net grp) [] dps 0 ifaces rs st = Ok rs st1" by blast
  with Cons.prems have "groups_body net ifaces [] dps g grp rs st = Ok rs st1"
    by (simp add: groups_body_def Let_def)
  with Cons.IH [of "Suc g" st1] Cons.prems show ?case by simp
qed

lemma main_start_no_ports:
  assumes "main_config fl = Inr cfg" and "cfg_ports cfg = []"
    and "resolves net (cfg_ifaces cfg)"
    and "\<forall>grp \<in> set (cfg_groups cfg). ParseIP net grp \<noteq> []"
  shows "\<exists>rs st'. main_start net fl st = Ok (cfg, rs) st'"
proof -
  from groups_loop_no_ports_Ok [OF assms(3,4)] obtain st' where
    "groups_loop net (cfg_ifaces cfg) [] (cfg_destPorts cfg) 0 (cfg_groups cfg)
       (make3 (length (cfg_groups cfg)) (length (cfg_ifaces cfg)) 0,
        make3 (length (cfg_groups cfg)) (length (cfg_ifaces cfg)) 0) st =
     Ok (make3 (length (cfg_groups cfg)) (length (cfg_ifaces cfg)) 0,
         make3 (length (cfg_groups cfg)) (length (cfg_ifaces cfg)) 0) st'"
    by blast
  with assms(1,2) show ?thesis
    by (simp add: main_start_def initializeConnections_def Let_def)
qed

lemma main_start_empty:
  assumes "main_start net fl proc0 = Ok (cfg, rs) st"
    and "triples (cfg_groups cfg) (cfg_ifaces cfg) (cfg_ports cfg) = []"
  shows "trace st = []" and "entry (fst rs) t = None" and "entry (snd rs) t = None"
    and "run net fl acts = Some s \<Longrightarrow> s_workers s = [] \<and> closes (s_trace s) = []"
    and "\<exists>s. run net fl [MainStep, MainStep, MainStep] = Some s \<and> s_main s = MExited 0 \<and>
             s_trace s = [ENotify, ELog AllDone]"
proof -
  note i = main_start_Ok(2) [OF assms(1)]
  from assms(2) in_triples [of 0 0 0 "cfg_groups cfg" "cfg_ifaces cfg" "cfg_ports cfg"]
  have z: "cfg_groups cfg = [] \<or> cfg_ifaces cfg = [] \<or> cfg_ports cfg = []" by auto
  from initializeConnections_empty [OF i z]
  show t: "trace st = []" and "entry (fst rs) t = None" and "entry (snd rs) t = None"
    by (simp_all add: proc0_def)
  show "s_workers s = [] \<and> closes (s_trace s) = []" if r: "run net fl acts = Some s"
  proof -
    from exec_trace [OF run_boot [OF r assms(1)]] assms(2) have "all_triples s = []"
      by (simp add: all_triples_def init_sys_def)
    from inv_no_triples [OF inv_run [OF r] this] show ?thesis by simp
  qed
  from initializeConnections_sound(1) [OF i]
  have "shape3 (fst rs) (length (cfg_groups cfg)) (length (cfg_ifaces cfg))
          (length (cfg_ports cfg))"
    by (simp add: sound_def)
  from closeConnections_empty [OF this, of "snd rs"] z
  have "closeConnections (fst rs) (snd rs) = []" by simp
  from zero_run [OF assms(2) this, of st] assms(1) t
  show "\<exists>s. run net fl [MainStep, MainStep, MainStep] = Some s \<and> s_main s = MExited 0 \<and>
             s_trace s = [ENotify, ELog AllDone]"
    by (simp add: run_def boot_def)
qed

text \<open>
  C10. Let the flag of the interfaces, of the ports or of the groups be a non-empty
  string of commas and white space only. Then \<open>main\<close> does not report that flag as
  missing, and the list parsed from it is empty. When the flags are accepted, there is no
  triple of a group, an interface and a port; \<open>initializeConnections\<close> then succeeds
  when it is the list of groups that is empty, when it is the list of interfaces and
  every group is an IP address, and when it is the list of ports, every group is an IP
  address and every interface is found with an IPv4 address. Whenever it succeeds it
  has opened no
  socket and logged nothing, the registry has no connection, no run of the process ever
  has a goroutine or closes a connection, and the process, with nothing to wait for,
  logs \<open>All done.\<close> and ends with status 0.
\<close>

theorem comma_only_flag_starts_empty:
  assumes "commaSpaceOnly (ifacesFlag fl) \<or> commaSpaceOnly (portsFlag fl) \<or>
           commaSpaceOnly (groupsFlag fl)"
  shows "(commaSpaceOnly (ifacesFlag fl) \<longrightarrow>
            parseCommaSeparated (ifacesFlag fl) = [] \<and>
            main_config fl \<noteq> Inl NoInterfacesSpecified) \<and>
         (commaSpaceOnly (portsFlag fl) \<longrightarrow>
            parsePorts (parseCommaSeparated (portsFlag fl)) = Inr [] \<and>
            main_config fl \<noteq> Inl NoPortsSpecified) \<and>
         (commaSpaceOnly (groupsFlag fl) \<longrightarrow>
            parseCommaSeparated (groupsFlag fl) = [] \<and>
            main_config fl \<noteq> Inl NoGroupsSpecified) \<and>
         (\<forall>cfg. main_config fl = Inr cfg \<longrightarrow>
            triples (cfg_groups cfg) (cfg_ifaces cfg) (cfg_ports cfg) = [] \<and>
            (commaSpaceOnly (groupsFlag fl) \<or>
             commaSpaceOnly (ifacesFlag fl) \<and>
               (\<forall>grp \<in> set (cfg_groups cfg). ParseIP net grp \<noteq> []) \<longrightarrow>
             (\<exists>rs. main_start net fl proc0 = Ok (cfg, rs) proc0)) \<and>
            (commaSpaceOnly (portsFlag fl) \<and> resolves net (cfg_ifaces cfg) \<and>
               (\<forall>grp \<in> set (cfg_groups cfg). ParseIP net grp \<noteq> []) \<longrightarrow>
             (\<exists>rs st. main_start net fl proc0 = Ok (cfg, rs) st))) \<and>
         (\<forall>cfg rs st. main_start net fl proc0 = Ok (cfg, rs) st \<longrightarrow>
            trace st = [] \<and>
            (\<forall>t. entry (fst rs) t = None \<and> entry (snd rs) t = None) \<and>
            (\<forall>acts s. run net fl acts = Some s \<longrightarrow>
               s_workers s = [] \<and> closes (s_trace s) = []) \<and>
            (\<exists>s. run net fl [MainStep, MainStep, MainStep] = Some s \<and>
               s_main s = MExited 0 \<and> s_trace s = [ENotify, ELog AllDone]))"
proof -
  have 1: "parseCommaSeparated (ifacesFlag fl) = [] \<and>
           main_config fl \<noteq> Inl NoInterfacesSpecified"
    if "commaSpaceOnly (ifacesFlag fl)"
    using that required_flag_given(1) [of fl]
    by (simp add: parseCommaSeparated_comma_space commaSpaceOnly_def)
  have 2: "parsePorts (parseCommaSeparated (portsFlag fl)) = Inr [] \<and>
           main_config fl \<noteq> Inl NoPortsSpecified"
    if "commaSpaceOnly (portsFlag fl)"
    using that required_flag_given(2) [of fl]
    by (simp add: parseCommaSeparated_comma_space commaSpaceOnly_def parsePorts_def)
  have 3: "parseCommaSeparated (groupsFlag fl) = [] \<and>
           main_config fl \<noteq> Inl NoGroupsSpecified"
    if "commaSpaceOnly (groupsFlag fl)"
    using that required_flag_given(3) [of fl]
    by (simp add: parseCommaSeparated_comma_space commaSpaceOnly_def)
  have z: "triples (cfg_groups cfg) (cfg_ifaces cfg) (cfg_ports cfg) = []"
    if "main_config fl = Inr cfg" for cfg
    using main_config_comma_space [OF that] assms by (intro triples_empty) blast
  have 4: "\<exists>rs. main_start net fl proc0 = Ok (cfg, rs) proc0"
    if c: "main_config fl = Inr cfg"
      and h: "commaSpaceOnly (groupsFlag fl) \<or>
              commaSpaceOnly (ifacesFlag fl) \<and>
                (\<forall>grp \<in> set (cfg_groups cfg). ParseIP net grp \<noteq> [])" for cfg
  proof (cases "commaSpaceOnly (groupsFlag fl)")
    case True
    from main_start_no_groups [OF c main_config_comma_space(3) [OF c True]] show ?thesis .
  next
    case False
    with h have i: "commaSpaceOnly (ifacesFlag fl)"
      and g: "\<forall>grp \<in> set (cfg_groups cfg). ParseIP net grp \<noteq> []" by simp_all
    from main_start_no_ifaces [OF c main_config_comma_space(1) [OF c i] g] show ?thesis .
  qed
  have 6: "\<exists>rs st. main_start net fl proc0 = Ok (cfg, rs) st"
    if c: "main_config fl = Inr cfg"
      and h: "commaSpaceOnly (portsFlag fl) \<and> resolves net (cfg_ifaces cfg) \<and>
                (\<forall>grp \<in> set (cfg_groups cfg). ParseIP net grp \<noteq> [])" for cfg
  proof -
    from h have p: "commaSpaceOnly (portsFlag fl)" and r: "resolves net (cfg_ifaces cfg)"
      and g: "\<forall>grp \<in> set (cfg_groups cfg). ParseIP net grp \<noteq> []" by simp_all
    from main_start_no_ports [OF c main_config_comma_space(2) [OF c p] r g] show ?thesis .
  qed
  have 5: "trace st = [] \<and>
            (\<forall>t. entry (fst rs) t = None \<and> entry (snd rs) t = None) \<and>
            (\<forall>acts s. run net fl acts = Some s \<longrightarrow>
               s_workers s = [] \<and> closes (s_trace s) = []) \<and>
            (\<exists>s. run net fl [MainStep, MainStep, MainStep] = Some s \<and>
               s_main s = MExited 0 \<and> s_trace s = [ENotify, ELog AllDone])"
    if m: "main_start net fl proc0 = Ok (cfg, rs) st" for cfg rs st
    using main_start_empty [OF m z [OF main_start_Ok(1) [OF m]]] by blast
  from 1 2 3 z 4 6 5 show ?thesis by blast
qed

theorem comma_only_flag_starts_empty_witness:
  "commaSpaceOnly (ifacesFlag flags_no_ifaces) \<and>
   commaSpaceOnly (portsFlag flags_no_ports) \<and>
   commaSpaceOnly (groupsFlag flags_no_groups) \<and>
   main_start net_up flags_no_ifaces proc0 =
     Ok (\<lparr>cfg_ifaces = [], cfg_groups = [str ''239.255.255.250''], cfg_ports = [1900],
          cfg_destPorts = [1900], cfg_verbose = False\<rparr>, ([[]], [[]])) proc0 \<and>
   main_start net_up flags_no_ports proc0 =
     Ok (\<lparr>cfg_ifaces = [str ''eth0'', str ''eth1''], cfg_groups = [str ''239.255.255.250''],
          cfg_ports = [], cfg_destPorts = [], cfg_verbose = False\<rparr>,
         ([[[], []]], [[[], []]]))
        \<lparr>clock = 4, nextConn = 0, trace = []\<rparr> \<and>
   main_start net_up flags_no_groups proc0 =
     Ok (\<lparr>cfg_ifaces = [str ''eth0'', str ''eth1''], cfg_groups = [], cfg_ports = [1900],
          cfg_destPorts = [1900], cfg_verbose = False\<rparr>, ([], [])) proc0 \<and>
   (\<exists>s. run net_up flags_no_ifaces [MainStep, MainStep, MainStep] = Some s \<and>
      s_main s = MExited 0 \<and> s_workers s = []) \<and>
   (\<exists>s. run net_up flags_no_ports [MainStep, MainStep, MainStep] = Some s \<and>
      s_main s = MExited 0 \<and> s_workers s = []) \<and>
   (\<exists>s. run net_up flags_no_groups [MainStep, MainStep, MainStep] = Some s \<and>
      s_main s = MExited 0 \<and> s_workers s = [])"
proof -
  have c: "commaSpaceOnly (ifacesFlag flags_no_ifaces)"
    "commaSpaceOnly (portsFlag flags_no_ports)"
    "commaSpaceOnly (groupsFlag flags_no_groups)"
    by (simp_all add: commaSpaceOnly_def flags_no_ifaces_def flags_no_ports_def
        flags_no_groups_def str_def comma_def IsSpace_def)
  have m: "main_start net_up flags_no_ifaces proc0 =
     Ok (\<lparr>cfg_ifaces = [], cfg_groups = [str ''239.255.255.250''], cfg_ports = [1900],
          cfg_destPorts = [1900], cfg_verbose = False\<rparr>, ([[]], [[]])) proc0"
    "main_start net_up flags_no_ports proc0 =
     Ok (\<lparr>cfg_ifaces = [str ''eth0'', str ''eth1''], cfg_groups = [str ''239.255.255.250''],
          cfg_ports = [], cfg_destPorts = [], cfg_verbose = False\<rparr>,
         ([[[], []]], [[[], []]]))
        \<lparr>clock = 4, nextConn = 0, trace = []\<rparr>"
    "main_start net_up flags_no_groups proc0 =
     Ok (\<lparr>cfg_ifaces = [str ''eth0'', str ''eth1''], cfg_groups = [], cfg_ports = [1900],
          cfg_destPorts = [1900], cfg_verbose = False\<rparr>, ([], [])) proc0"
    by (simp_all add: main_start_def main_config_def flags_no_ifaces_def flags_no_ports_def
        flags_no_groups_def parseCommaSeparated_def comma_def TrimSpace_def scan_defs Let_def
        initializeConnections_def groups_body_def ifaces_body_def firstIPv4Addr_def
        net_up_def proc0_def proc_defs make3_def To4_def ipString_def itoa.simps str_def)
  have r1: "\<exists>s. run net_up flags_no_ifaces [MainStep, MainStep, MainStep] = Some s \<and>
      s_main s = MExited 0 \<and> s_workers s = []"
    using comma_only_flag_starts_empty [of flags_no_ifaces net_up] c(1) m(1) by blast
  have r2: "\<exists>s. run net_up flags_no_ports [MainStep, MainStep, MainStep] = Some s \<and>
      s_main s = MExited 0 \<and> s_workers s = []"
    using comma_only_flag_starts_empty [of flags_no_ports net_up] c(2) m(2) by blast
  have r3: "\<exists>s. run net_up flags_no_groups [MainStep, MainStep, MainStep] = Some s \<and>
      s_main s = MExited 0 \<and> s_workers s = []"
    using comma_only_flag_starts_empty [of flags_no_groups net_up] c(3) m(3) by blast
  from c m r1 r2 r3 show ?thesis by blast
qed

section \<open>Shutdown\<close>

lemma cancelled_terminates:
  assumes "inv s" and "s_cancelled s"
  shows "\<exists>rest s'. exec s rest = Some s' \<and> exited s'"
  using assms
proof (induction "steps_left s" arbitrary: s rule: less_induct)
  case less
  show ?case
  proof (cases "exited s")
    case True
    then have "exec s [] = Some s \<and> exited s" by simp
    then show ?thesis by blast
  next
    case False
    from no_deadlock [OF less.prems(1) False] obtain a s1
      where a: "program_step a" and s1: "sys_step s a = Some s1" by auto
    from steps_left_sys_step [OF less.prems(2) s1] a
    have "steps_left s1 < steps_left s" "s_cancelled s1" by simp_all
    from less.hyps [OF this(1) inv_sys_step [OF less.prems(1) s1] this(2)]
    obtain rest s' where "exec s1 rest = Some s'" "exited s'" by blast
    with s1 have "exec s (a # rest) = Some s' \<and> exited s'" by simp
    then show ?thesis by blast
  qed
qed

lemma inv_cancelled_exit:
  assumes "inv s" and "s_cancelled s" and "exited s"
  shows "\<exists>n. s_main s = MExited n"
  using assms by (cases "s_main s") (auto simp: inv_def exited_def)

lemma run_exit_status:
  assumes "run net fl acts = Some s" and "s_cancelled s" and "exited s"
  shows "s_main s = MExited 0"
proof (cases net fl rule: boot_cases)
  case (ok cfg rs st evs)
  from inv_cancelled_exit [OF inv_run [OF assms(1)] assms(2,3)]
  obtain n where n: "s_main s = MExited n" by blast
  from ok(2) have "\<not> exited (boot net fl)" by (simp add: init_sys_def exited_def)
  from exec_exit_status [OF inv_boot this assms(1) [unfolded run_def] n] n show ?thesis by simp
next
  case (fatal f st evs)
  then have "exited (boot net fl)" by (simp add: dead_sys_def exited_def)
  from exec_exited [OF this assms(1) [unfolded run_def]] fatal(2) assms(2) show ?thesis
    by (simp add: dead_sys_def)
next
  case (panic st evs)
  then have "exited (boot net fl)" by (simp add: dead_sys_def exited_def)
  from exec_exited [OF this assms(1) [unfolded run_def]] panic(2) assms(2) show ?thesis
    by (simp add: dead_sys_def)
qed

lemma inv_all_done_logged:
  assumes "inv s" and "ELog AllDone \<in> set (s_trace s)"
  shows "s_main s = MExited 0" and "last (s_trace s) = ELog AllDone"
    and "map CloseOp (closes (s_trace s)) = close_ops s"
  using assms by (cases "s_main s"; simp add: inv_def split: if_splits)+

lemma inv_exit_logged:
  assumes "inv s" and "s_main s = MExited 0"
  shows "ELog AllDone \<in> set (s_trace s)"
proof -
  from assms have "s_trace s \<noteq> []" "last (s_trace s) = ELog AllDone" by (simp_all add: inv_def)
  from last_in_set [OF this(1)] this(2) show ?thesis by simp
qed

lemma closed_registry:
  assumes "inv s" and "map CloseOp (closes (s_trace s)) = close_ops s"
    and "entry (sh_conns (s_shared s)) t = Some c \<or> entry (sh_senders (s_shared s)) t = Some c"
  shows "c \<in> set (closes (s_trace s))"
proof -
  from assms(1) have wf: "wf_shared (s_shared s)" by (simp add: inv_def)
  from assms(3) wf_close_ops(2,3) [OF wf, of t c] have "CloseOp c \<in> set (close_ops s)" by blast
  with assms(2) [symmetric] show ?thesis by auto
qed

lemma inv_handler_installed:
  assumes "inv s"
    and "s_main s = MWait \<or> (\<exists>ops. s_main s = MCloseConnections ops) \<or> s_main s = MExited 0"
  shows "s_handler s \<noteq> HIdle" and "ENotify \<in> set (s_trace s)"
  using assms by (auto simp: inv_def)

lemma inv_handler_idle:
  assumes "inv s" and "s_handler s = HIdle" and "\<not> exited s"
  shows "\<exists>ts. s_main s = MStartForwarding ts"
  using assms by (cases "s_main s") (auto simp: inv_def exited_def)

lemma start_all:
  assumes "s_main s = MStartForwarding ts"
  shows "\<exists>s'. exec s (replicate (Suc (length ts)) MainStep) = Some s' \<and>
           s_main s' = MWait \<and> s_handler s' = HWaiting \<and>
           s_workers s' = s_workers s @ map new_worker ts \<and>
           s_cancelled s' = s_cancelled s \<and>
           s_trace s' = s_trace s @ map (\<lambda>(g, i, p). EGo g i p) ts @ [ENotify]"
  using assms
proof (induction ts arbitrary: s)
  case Nil
  then show ?case by (simp add: sys_step_def exited_def main_step_def)
next
  case (Cons t ts)
  let ?s1 = "s\<lparr>s_wg := Suc (s_wg s), s_workers := s_workers s @ [new_worker t],
               s_trace := s_trace s @ [case t of (g, i, p) \<Rightarrow> EGo g i p],
               s_main := MStartForwarding ts\<rparr>"
  from Cons.prems have st: "sys_step s MainStep = Some ?s1"
    by (simp add: sys_step_def exited_def main_step_def)
  from Cons.IH [of ?s1] obtain s' where
    "exec ?s1 (replicate (Suc (length ts)) MainStep) = Some s'"
    "s_main s' = MWait" "s_handler s' = HWaiting"
    "s_workers s' = s_workers ?s1 @ map new_worker ts"
    "s_cancelled s' = s_cancelled ?s1"
    "s_trace s' = s_trace ?s1 @ map (\<lambda>(g, i, p). EGo g i p) ts @ [ENotify]"
    by auto
  with st have "exec s (replicate (Suc (length (t # ts))) MainStep) = Some s' \<and>
           s_main s' = MWait \<and> s_handler s' = HWaiting \<and>
           s_workers s' = s_workers s @ map new_worker (t # ts) \<and>
           s_cancelled s' = s_cancelled s \<and>
           s_trace s' = s_trace s @ map (\<lambda>(g, i, p). EGo g i p) (t # ts) @ [ENotify]"
    by (simp split: prod.splits)
  then show ?case by blast
qed

lemma early_signal:
  assumes "\<not> exited s" and "s_handler s = HIdle"
  shows "exec s [Signal sig] = Some (s\<lparr>s_main := MKilled sig\<rparr>)"
  using assms by (simp add: sys_step_def signal_step_def)

lemma signal_received:
  assumes "\<not> exited s" and "s_handler s = HWaiting"
  shows "\<exists>s'. exec s [Signal sig, HandlerStep, HandlerStep, HandlerStep] = Some s' \<and>
           s_cancelled s' \<and> s_handler s' = HDone \<and> s_main s' = s_main s \<and>
           s_workers s' = s_workers s \<and>
           s_trace s' = s_trace s @
             [ELog (ReceivedSignal (case s_sigchan s of None \<Rightarrow> sig | Some x \<Rightarrow> x))]"
  using assms
  by (cases "s_sigchan s") (simp_all add: sys_step_def signal_step_def handler_step_def exited_def)

lemma signal_pending_step:
  assumes "signal_pending s" and i: "inv s"
  shows "\<not> exited s \<longrightarrow> sys_step s HandlerStep \<noteq> None"
    and "sys_step s a = Some s' \<longrightarrow> signal_pending s' \<or> s_cancelled s'"
proof -
  from assms(1) show "\<not> exited s \<longrightarrow> sys_step s HandlerStep \<noteq> None"
    by (auto simp: signal_pending_def sys_step_def handler_step_def)
  show "sys_step s a = Some s' \<longrightarrow> signal_pending s' \<or> s_cancelled s'"
  proof
    assume st: "sys_step s a = Some s'"
    show "signal_pending s' \<or> s_cancelled s'"
    proof (cases a)
      case MainStep
      with st have m: "main_step s = Some s'" by (simp add: sys_step_def split: if_splits)
      from assms have "s_handler s \<noteq> HIdle" by (auto simp: signal_pending_def)
      show ?thesis
      proof (cases "s_main s")
        case (MStartForwarding ts)
        with i have "s_handler s = HIdle" by (simp add: inv_def)
        with assms(1) show ?thesis by (auto simp: signal_pending_def)
      next
        case MWait
        with m assms show ?thesis
          by (auto simp: main_step_def signal_pending_def split: if_splits)
      next
        case (MCloseConnections ops)
        with m assms show ?thesis
          by (cases ops) (auto simp: main_step_def signal_pending_def split: closeop.splits)
      next
        case (MExited n)
        with m show ?thesis by (simp add: main_step_def)
      next
        case (MKilled sig)
        with m show ?thesis by (simp add: main_step_def)
      qed
    next
      case (WorkerStep k r)
      with st have "goroutine_step k r s = Some s'" by (simp add: sys_step_def split: if_splits)
      then obtain w' evs where "s' = s\<lparr>s_workers := (s_workers s)[k := w'],
                 s_trace := s_trace s @ evs,
                 s_wg := (if pc w' = Done then s_wg s - 1 else s_wg s),
                 s_main := (if pc w' = Panicked then MExited 2 else s_main s)\<rparr>"
        by (rule goroutine_stepE)
      with assms show ?thesis by (simp add: signal_pending_def)
    next
      case HandlerStep
      with st assms show ?thesis
        by (auto simp: sys_step_def handler_step_def signal_pending_def
            split: if_splits handlerpc.splits option.splits)
    next
      case (Signal sig)
      with st assms show ?thesis
        by (auto simp: sys_step_def signal_step_def signal_pending_def split: if_splits)
    qed
  qed
qed

lemma signal_delivered:
  assumes "\<not> exited s" and "s_handler s = HWaiting"
  shows "\<exists>s'. sys_step s (Signal sig) = Some s' \<and> signal_pending s'"
  using assms by (auto simp: sys_step_def signal_step_def signal_pending_def)

lemma boot3: "boot net_up flags3 = init_sys config3 regs3 proc3"
  by (simp add: boot_def main_start_proc3)

lemma run3_shutdown:
  "\<exists>s. run net_up flags3 shutdown3_schedule = Some s \<and> s_main s = MExited 0 \<and>
       s_cancelled s \<and> length (s_workers s) = 3 \<and>
       s_trace s = trace proc3 @
         [EGo 0 0 0, EGo 0 1 0, EGo 0 2 0, ENotify, ELog (ReceivedSignal SIGTERM),
          EClose 0, EClose 1, EClose 2, EClose 3, EClose 4, EClose 5, ELog AllDone]"
  by (simp add: run_def boot3 shutdown3_schedule_def init_sys_def triples_def config3_def
      regs3_def step_defs)

lemma run3_killed:
  "\<exists>s. run net_up flags3 [MainStep, Signal SIGTERM] = Some s \<and>
       s_main s = MKilled SIGTERM \<and> \<not> s_cancelled s \<and> map pc (s_workers s) = [AtStart] \<and>
       s_trace s = trace proc3 @ [EGo 0 0 0]"
  by (simp add: run_def boot3 init_sys_def triples_def config3_def regs3_def step_defs)

text \<open>
  C2 says what happens after a termination signal. The handler is installed by
  \<open>handleShutdown\<close>, which \<open>main\<close> calls when \<open>startForwarding\<close> has returned. With
  three interfaces, a \<open>SIGTERM\<close> that arrives when the first goroutine has been started
  kills the process: the context is not cancelled, the goroutine has not returned and
  takes no further step, no connection is closed and nothing is logged.
\<close>

theorem early_signal_kills:
  "map_option s_main (run net_up flags3 [MainStep, Signal SIGTERM]) = Some (MKilled SIGTERM) \<and>
   map_option s_cancelled (run net_up flags3 [MainStep, Signal SIGTERM]) = Some False \<and>
   map_option (map pc \<circ> s_workers) (run net_up flags3 [MainStep, Signal SIGTERM]) =
     Some [AtStart] \<and>
   map_option s_trace (run net_up flags3 [MainStep, Signal SIGTERM]) =
     Some (trace proc3 @ [EGo 0 0 0]) \<and>
   run net_up flags3 [MainStep, Signal SIGTERM, WorkerStep 0 NoReply] = None \<and>
   run net_up flags3 [MainStep, Signal SIGTERM, MainStep] = None \<and>
   run net_up flags3 [MainStep, Signal SIGTERM, HandlerStep] = None"
proof -
  from run3_killed obtain s where r: "run net_up flags3 [MainStep, Signal SIGTERM] = Some s"
    and s: "s_main s = MKilled SIGTERM" "\<not> s_cancelled s" "map pc (s_workers s) = [AtStart]"
      "s_trace s = trace proc3 @ [EGo 0 0 0]"
    by auto
  from s(1) have e: "exited s" by (simp add: exited_def)
  have n: "run net_up flags3 ([MainStep, Signal SIGTERM] @ [a]) = None" for a
  proof (cases "run net_up flags3 ([MainStep, Signal SIGTERM] @ [a])")
    case None
    then show ?thesis .
  next
    case (Some s')
    with r e show ?thesis by (simp add: run_def sys_step_def split: option.splits)
  qed
  from r s n [of "WorkerStep 0 NoReply"] n [of MainStep] n [of HandlerStep] show ?thesis
    by simp
qed

text \<open>
  C2, as the code has it. In every state \<open>s\<close> of every run of the program:
  no goroutine sets a deadline, reads or writes after the first \<open>Close\<close>; when
  \<open>main\<close> is closing the connections, or a connection has been closed, a goroutine
  has been started for every triple and every goroutine has returned; when
  \<open>All done.\<close> has been logged it is the last thing that happened, every connection
  of the registry has been closed and the process has ended with status 0, which it
  does only with that line logged.

  When \<open>main\<close> waits, closes or has returned, \<open>signal.Notify\<close> has been called and the
  handler goroutine runs. Before that \<open>main\<close> is still starting goroutines: its next
  steps start the rest and install the handler, and a signal kills the process.
  A signal that arrives while the handler waits is received, logged and followed by
  the cancellation of the context within three steps of the handler; from the arrival
  to the cancellation the handler can take a step, whatever else happens. Once the
  context is cancelled every schedule has at most \<open>steps_left s\<close> further steps of the
  program, a step is possible as long as the process has not ended, so that some
  schedule ends the process, and the process ends with status 0.
\<close>

theorem graceful_shutdown:
  assumes "run net fl acts = Some s"
  shows "quiet_after_close (s_trace s) \<and>
         ((\<exists>ops. s_main s = MCloseConnections ops) \<or> closes (s_trace s) \<noteq> [] \<longrightarrow>
            (\<forall>w \<in> set (s_workers s). pc w = Done) \<and>
            map triple_of (s_workers s) = all_triples s) \<and>
         (ELog AllDone \<in> set (s_trace s) \<longrightarrow>
            s_main s = MExited 0 \<and> last (s_trace s) = ELog AllDone \<and>
            (\<forall>t c. entry (sh_conns (s_shared s)) t = Some c \<or>
                   entry (sh_senders (s_shared s)) t = Some c \<longrightarrow>
                   c \<in> set (closes (s_trace s)))) \<and>
         (s_main s = MExited 0 \<longrightarrow> ELog AllDone \<in> set (s_trace s)) \<and>
         (s_main s = MWait \<or> (\<exists>ops. s_main s = MCloseConnections ops) \<or>
          s_main s = MExited 0 \<longrightarrow>
            s_handler s \<noteq> HIdle \<and> ENotify \<in> set (s_trace s)) \<and>
         (\<not> exited s \<and> s_handler s = HIdle \<longrightarrow>
            (\<exists>ts. s_main s = MStartForwarding ts \<and>
               (\<exists>s'. exec s (replicate (Suc (length ts)) MainStep) = Some s' \<and>
                  s_main s' = MWait \<and> s_handler s' = HWaiting \<and>
                  s_workers s' = s_workers s @ map new_worker ts)) \<and>
            exec s [Signal sig] = Some (s\<lparr>s_main := MKilled sig\<rparr>)) \<and>
         (\<not> exited s \<and> s_handler s = HWaiting \<longrightarrow>
            (\<exists>s'. exec s [Signal sig, HandlerStep, HandlerStep, HandlerStep] = Some s' \<and>
                  s_cancelled s' \<and>
                  s_trace s' = s_trace s @
                    [ELog (ReceivedSignal
                       (case s_sigchan s of None \<Rightarrow> sig | Some x \<Rightarrow> x))]) \<and>
            (\<exists>s'. sys_step s (Signal sig) = Some s' \<and> signal_pending s')) \<and>
         (signal_pending s \<longrightarrow>
            (\<not> exited s \<longrightarrow> sys_step s HandlerStep \<noteq> None) \<and>
            (\<forall>a s'. sys_step s a = Some s' \<longrightarrow> signal_pending s' \<or> s_cancelled s')) \<and>
         (s_cancelled s \<longrightarrow>
            (\<forall>rest s'. exec s rest = Some s' \<longrightarrow>
               steps_left s' + length (filter program_step rest) \<le> steps_left s) \<and>
            (\<not> exited s \<longrightarrow> (\<exists>a. program_step a \<and> sys_step s a \<noteq> None)) \<and>
            (\<exists>rest s'. exec s rest = Some s' \<and> exited s') \<and>
            (exited s \<longrightarrow> s_main s = MExited 0))"
proof -
  note i = inv_run [OF assms]
  have 1: "quiet_after_close (s_trace s)" using i by (simp add: inv_def)
  have 2: "(\<forall>w \<in> set (s_workers s). pc w = Done) \<and>
           map triple_of (s_workers s) = all_triples s"
    if "(\<exists>ops. s_main s = MCloseConnections ops) \<or> closes (s_trace s) \<noteq> []"
  proof (cases "closes (s_trace s) = []")
    case False
    from inv_closed [OF i False] show ?thesis by (simp add: all_done_def)
  next
    case True
    with that obtain ops where "s_main s = MCloseConnections ops" by blast
    with i show ?thesis by (simp add: inv_def all_done_def)
  qed
  have 3: "s_main s = MExited 0 \<and> last (s_trace s) = ELog AllDone \<and>
            (\<forall>t c. entry (sh_conns (s_shared s)) t = Some c \<or>
                   entry (sh_senders (s_shared s)) t = Some c \<longrightarrow>
                   c \<in> set (closes (s_trace s)))"
    if "ELog AllDone \<in> set (s_trace s)"
    using inv_all_done_logged [OF i that] closed_registry [OF i] by blast
  have 4: "ELog AllDone \<in> set (s_trace s)" if "s_main s = MExited 0"
    using inv_exit_logged [OF i that] .
  have 5: "s_handler s \<noteq> HIdle \<and> ENotify \<in> set (s_trace s)"
    if "s_main s = MWait \<or> (\<exists>ops. s_main s = MCloseConnections ops) \<or> s_main s = MExited 0"
    using inv_handler_installed [OF i that] by simp
  have 6: "(\<exists>ts. s_main s = MStartForwarding ts \<and>
               (\<exists>s'. exec s (replicate (Suc (length ts)) MainStep) = Some s' \<and>
                  s_main s' = MWait \<and> s_handler s' = HWaiting \<and>
                  s_workers s' = s_workers s @ map new_worker ts)) \<and>
            exec s [Signal sig] = Some (s\<lparr>s_main := MKilled sig\<rparr>)"
    if h: "\<not> exited s \<and> s_handler s = HIdle"
  proof -
    from h have ne: "\<not> exited s" and hi: "s_handler s = HIdle" by simp_all
    from inv_handler_idle [OF i hi ne] obtain ts where ts: "s_main s = MStartForwarding ts"
      by blast
    from start_all [OF ts] ts early_signal [OF ne hi, of sig] show ?thesis by blast
  qed
  have 7: "(\<exists>s'. exec s [Signal sig, HandlerStep, HandlerStep, HandlerStep] = Some s' \<and>
                  s_cancelled s' \<and>
                  s_trace s' = s_trace s @
                    [ELog (ReceivedSignal
                       (case s_sigchan s of None \<Rightarrow> sig | Some x \<Rightarrow> x))]) \<and>
            (\<exists>s'. sys_step s (Signal sig) = Some s' \<and> signal_pending s')"
    if h: "\<not> exited s \<and> s_handler s = HWaiting"
  proof -
    from h have ne: "\<not> exited s" and hw: "s_handler s = HWaiting" by simp_all
    from signal_received [OF ne hw, of sig] signal_delivered [OF ne hw, of sig]
    show ?thesis by blast
  qed
  have 8: "(\<not> exited s \<longrightarrow> sys_step s HandlerStep \<noteq> None) \<and>
            (\<forall>a s'. sys_step s a = Some s' \<longrightarrow> signal_pending s' \<or> s_cancelled s')"
    if "signal_pending s"
    using signal_pending_step [OF that i] by blast
  have 9: "(\<forall>rest s'. exec s rest = Some s' \<longrightarrow>
               steps_left s' + length (filter program_step rest) \<le> steps_left s) \<and>
            (\<not> exited s \<longrightarrow> (\<exists>a. program_step a \<and> sys_step s a \<noteq> None)) \<and>
            (\<exists>rest s'. exec s rest = Some s' \<and> exited s') \<and>
            (exited s \<longrightarrow> s_main s = MExited 0)"
    if c: "s_cancelled s"
    using steps_left_exec [OF c] no_deadlock [OF i] cancelled_terminates [OF i c]
      run_exit_status [OF assms c]
    by blast
  from 1 2 3 4 5 6 7 8 9 show ?thesis by blast
qed

theorem graceful_shutdown_witness:
  "\<exists>s. run net_up flags3 shutdown3_schedule = Some s \<and>
       s_cancelled s \<and> exited s \<and> s_main s = MExited 0 \<and>
       closes (s_trace s) = [0, 1, 2, 3, 4, 5] \<and> last (s_trace s) = ELog AllDone \<and>
       length (s_workers s) = 3 \<and> list_all (\<lambda>w. pc w = Done) (s_workers s) \<and>
       map triple_of (s_workers s) = all_triples s \<and> s_handler s \<noteq> HIdle \<and>
       ENotify \<in> set (s_trace s)"
proof -
  from run3_shutdown obtain s where r: "run net_up flags3 shutdown3_schedule = Some s"
    and s: "s_main s = MExited 0" "s_cancelled s" "length (s_workers s) = 3"
      "s_trace s = trace proc3 @
         [EGo 0 0 0, EGo 0 1 0, EGo 0 2 0, ENotify, ELog (ReceivedSignal SIGTERM),
          EClose 0, EClose 1, EClose 2, EClose 3, EClose 4, EClose 5, ELog AllDone]"
    by blast
  from s(4) have c: "closes (s_trace s) = [0, 1, 2, 3, 4, 5]"
    "ELog AllDone \<in> set (s_trace s)"
    by (simp_all add: proc3_def)
  from graceful_shutdown [OF r, of SIGTERM] r s(1,2,3) c show ?thesis
    by (auto simp: exited_def list_all_iff)
qed

section \<open>Read errors\<close>

lemma sys_step_done_stays:
  assumes "sys_step s a = Some s'" and "k < length (s_workers s)"
    and "pc (s_workers s ! k) = Done"
  shows "k < length (s_workers s') \<and> s_workers s' ! k = s_workers s ! k"
proof (cases a)
  case MainStep
  with assms(1) have m: "main_step s = Some s'" by (simp add: sys_step_def split: if_splits)
  show ?thesis
  proof (cases "s_main s")
    case (MStartForwarding ts)
    with m assms(2) show ?thesis by (cases ts) (auto simp: main_step_def nth_append)
  next
    case MWait
    with m assms(2) show ?thesis by (auto simp: main_step_def split: if_splits)
  next
    case (MCloseConnections ops)
    with m assms(2) show ?thesis
      by (cases ops) (auto simp: main_step_def split: closeop.splits)
  next
    case (MExited n)
    with m show ?thesis by (simp add: main_step_def)
  next
    case (MKilled sig)
    with m show ?thesis by (simp add: main_step_def)
  qed
next
  case (WorkerStep j r)
  with assms(1) have "goroutine_step j r s = Some s'" by (simp add: sys_step_def split: if_splits)
  then obtain w' evs where j: "j < length (s_workers s)"
    and ws: "worker_step (s_shared s) (s_cancelled s) r (s_workers s ! j) = Some (w', evs)"
    and s': "s_workers s' = (s_workers s)[j := w']"
    by (auto elim!: goroutine_stepE)
  from worker_step_live [OF ws] assms(3) have "j \<noteq> k" by auto
  with s' assms(2) show ?thesis by simp
next
  case HandlerStep
  with assms(1,2) show ?thesis
    by (auto simp: sys_step_def handler_step_def split: if_splits handlerpc.splits option.splits)
next
  case (Signal sig)
  with assms(1,2) show ?thesis
    by (auto simp: sys_step_def signal_step_def split: if_splits)
qed

lemma exec_done_stays:
  assumes "exec s rest = Some s'" and "k < length (s_workers s)"
    and "pc (s_workers s ! k) = Done"
  shows "k < length (s_workers s') \<and> s_workers s' ! k = s_workers s ! k"
  using assms
proof (induction rest arbitrary: s)
  case Nil
  then show ?case by simp
next
  case (Cons a rest)
  then obtain s1 where s1: "sys_step s a = Some s1" and e: "exec s1 rest = Some s'"
    by (auto split: option.splits)
  from sys_step_done_stays [OF s1 Cons.prems(2,3)]
  have k: "k < length (s_workers s1)" and w: "s_workers s1 ! k = s_workers s ! k" by simp_all
  from Cons.IH [OF e k] w Cons.prems(3) show ?case by simp
qed

lemma done_no_step:
  assumes "k < length (s_workers s)" and "pc (s_workers s ! k) = Done"
  shows "sys_step s (WorkerStep k r) = None"
proof (cases "sys_step s (WorkerStep k r)")
  case None
  then show ?thesis .
next
  case (Some s')
  then have "goroutine_step k r s = Some s'" by (simp add: sys_step_def split: if_splits)
  then obtain w' evs where
    "worker_step (s_shared s) (s_cancelled s) r (s_workers s ! k) = Some (w', evs)"
    by (auto elim!: goroutine_stepE)
  from worker_step_live [OF this] assms(2) show ?thesis by simp
qed

lemma inv_exit_done:
  assumes "inv s" and "s_main s = MExited n" and "s_workers s \<noteq> []"
  shows "n = 0" and "list_all (\<lambda>w. pc w = Done) (s_workers s)"
  using assms by (auto simp: inv_def all_done_def list_all_iff split: if_splits)

lemma inv_reading:
  assumes "inv s" and "k < length (s_workers s)" and "pc (s_workers s ! k) = AtRead"
  shows "\<exists>c. lconn (s_workers s ! k) = Some c \<and>
             entry (sh_conns (s_shared s)) (triple_of (s_workers s ! k)) = Some c"
    and "wgroup (s_workers s ! k) = sh_groups (s_shared s) ! gIdx (s_workers s ! k)"
    and "ifaceName (s_workers s ! k) = sh_ifaces (s_shared s) ! iIdx (s_workers s ! k)"
    and "wport (s_workers s ! k) = sh_ports (s_shared s) ! pIdx (s_workers s ! k)"
    and "length (buf (s_workers s ! k)) = BufferLen"
    and "in_range (s_shared s) (s_workers s ! k)"
proof -
  let ?w = "s_workers s ! k"
  from assms(2) have m: "?w \<in> set (s_workers s)" by simp
  from assms(1) m have st: "started_ok (s_shared s) ?w" and wf: "wf_shared (s_shared s)"
    by (simp_all add: inv_def)
  from st assms(3) show "wgroup ?w = sh_groups (s_shared s) ! gIdx ?w"
    "ifaceName ?w = sh_ifaces (s_shared s) ! iIdx ?w"
    "wport ?w = sh_ports (s_shared s) ! pIdx ?w"
    "length (buf ?w) = BufferLen"
    by (simp_all add: started_ok_def)
  from st assms(3) have l: "lconn ?w = entry (sh_conns (s_shared s)) (triple_of ?w)"
    by (simp add: started_ok_def)
  from inv_in_range [OF assms(1) m] show r: "in_range (s_shared s) ?w" .
  with wf have "covers (sh_conns (s_shared s), sh_senders (s_shared s)) (triple_of ?w)"
    by (simp add: wf_shared_def in_range_def triple_of_def)
  with l show "\<exists>c. lconn ?w = Some c \<and> entry (sh_conns (s_shared s)) (triple_of ?w) = Some c"
    by (auto simp: covers_def)
qed

lemma other_worker_step:
  assumes "s_shared s' = s_shared s" and "s_cancelled s' = s_cancelled s"
    and "exited s' = exited s" and "length (s_workers s') = length (s_workers s)"
    and "s_workers s' ! j = s_workers s ! j"
  shows "map_option (\<lambda>t. s_workers t ! j) (sys_step s' (WorkerStep j r)) =
         map_option (\<lambda>t. s_workers t ! j) (sys_step s (WorkerStep j r))"
  using assms by (auto simp: sys_step_def goroutine_step_def split: option.splits)

lemma no_panic_ops: "PanicOp \<notin> set ops \<Longrightarrow> \<exists>cs. ops = map CloseOp cs"
proof (induction ops)
  case Nil
  then show ?case by simp
next
  case (Cons x ops)
  then obtain cs where cs: "ops = map CloseOp cs" by auto
  from Cons.prems obtain c where "x = CloseOp c" by (cases x) auto
  with cs have "x # ops = map CloseOp (c # cs)" by simp
  then show ?case ..
qed

lemma close_run:
  assumes "s_main s = MCloseConnections (map CloseOp cs)"
  shows "\<exists>s'. exec s (replicate (Suc (length cs)) MainStep) = Some s' \<and>
           s_main s' = MExited 0 \<and>
           s_trace s' = s_trace s @ map EClose cs @ [ELog AllDone] \<and>
           s_cancelled s' = s_cancelled s \<and> s_workers s' = s_workers s"
  using assms
proof (induction cs arbitrary: s)
  case Nil
  then show ?case by (simp add: sys_step_def exited_def main_step_def)
next
  case (Cons c cs)
  let ?s1 = "s\<lparr>s_trace := s_trace s @ [EClose c], s_main := MCloseConnections (map CloseOp cs)\<rparr>"
  from Cons.prems have st: "sys_step s MainStep = Some ?s1"
    by (simp add: sys_step_def exited_def main_step_def)
  from Cons.IH [of ?s1] obtain s' where
    "exec ?s1 (replicate (Suc (length cs)) MainStep) = Some s'"
    "s_main s' = MExited 0"
    "s_trace s' = s_trace ?s1 @ map EClose cs @ [ELog AllDone]"
    "s_cancelled s' = s_cancelled ?s1" "s_workers s' = s_workers ?s1"
    by auto
  with st have "exec s (replicate (Suc (length (c # cs))) MainStep) = Some s' \<and>
           s_main s' = MExited 0 \<and>
           s_trace s' = s_trace s @ map EClose (c # cs) @ [ELog AllDone] \<and>
           s_cancelled s' = s_cancelled s \<and> s_workers s' = s_workers s"
    by simp
  then show ?case by blast
qed

lemma wait_to_exit:
  assumes "inv s" and "s_main s = MWait" and "list_all (\<lambda>w. pc w = Done) (s_workers s)"
  shows "\<exists>cs s'. map CloseOp cs = close_ops s \<and>
           exec s (replicate (length cs + 2) MainStep) = Some s' \<and>
           s_main s' = MExited 0 \<and>
           s_trace s' = s_trace s @ map EClose cs @ [ELog AllDone] \<and>
           s_cancelled s' = s_cancelled s"
proof -
  from assms(1) have wf: "wf_shared (s_shared s)" by (simp add: inv_def)
  from no_panic_ops [OF wf_close_ops(1) [OF wf]] obtain cs where cs: "close_ops s = map CloseOp cs"
    by blast
  from assms(3) have "filter (\<lambda>w. pc w \<noteq> Done) (s_workers s) = []"
    by (auto simp: list_all_iff filter_empty_conv)
  with assms(1) have z: "s_wg s = 0" by (simp add: inv_def)
  let ?s1 = "s\<lparr>s_main := MCloseConnections (map CloseOp cs)\<rparr>"
  from assms(2) z cs have st: "sys_step s MainStep = Some ?s1"
    by (simp add: sys_step_def exited_def main_step_def close_ops_def)
  from close_run [of ?s1 cs] obtain s' where
    "exec ?s1 (replicate (Suc (length cs)) MainStep) = Some s'"
    "s_main s' = MExited 0"
    "s_trace s' = s_trace ?s1 @ map EClose cs @ [ELog AllDone]"
    "s_cancelled s' = s_cancelled ?s1"
    by auto
  with st cs have "map CloseOp cs = close_ops s \<and>
           exec s (replicate (length cs + 2) MainStep) = Some s' \<and>
           s_main s' = MExited 0 \<and>
           s_trace s' = s_trace s @ map EClose cs @ [ELog AllDone] \<and>
           s_cancelled s' = s_cancelled s"
    by simp
  then show ?thesis by blast
qed

lemma run3_last_reader:
  "\<exists>s. run net_up flags3 last_reader_schedule = Some s \<and> length (s_workers s) = 3 \<and>
       pc (s_workers s ! 0) = AtRead \<and> pc (s_workers s ! 1) = Done \<and>
       pc (s_workers s ! 2) = Done \<and>
       s_main s = MWait \<and> \<not> s_cancelled s \<and> lconn (s_workers s ! 0) = Some 0 \<and>
       triple_of (s_workers s ! 0) = (0, 0, 0) \<and>
       s_shared s = s_shared (init_sys config3 regs3 proc3)"
  by (simp add: run_def boot3 last_reader_schedule_def init_sys_def triples_def config3_def
      regs3_def step_defs triple_of_def connection_reset_def)

lemma close_ops3:
  "s_shared s = s_shared (init_sys config3 regs3 proc3) \<Longrightarrow>
   close_ops s = map CloseOp [0, 1, 2, 3, 4, 5]"
  by (simp add: close_ops_def closeConnections_def close_cell_def init_sys_def regs3_def
      at3_def at_def)

text \<open>
  C4 says that after a read error the process keeps running until shutdown. With one
  interface the process has one goroutine; under \<open>read_error_schedule\<close> its read
  fails with an error that is not a timeout, and no signal ever arrives. The goroutine
  returns, \<open>wg.Wait()\<close> returns, and \<open>main\<close> closes the two connections, logs
  \<open>All done.\<close> and ends the process with status 0: the context is not cancelled and
  the handler still waits for a signal.
\<close>

theorem read_error_exits_process:
  "map_option s_main (run net_up flags1 read_error_schedule) = Some (MExited 0) \<and>
   map_option s_cancelled (run net_up flags1 read_error_schedule) = Some False \<and>
   map_option s_handler (run net_up flags1 read_error_schedule) = Some HWaiting \<and>
   map_option s_sigchan (run net_up flags1 read_error_schedule) = Some None \<and>
   map_option s_trace (run net_up flags1 read_error_schedule) =
     Some (trace proc1 @
       [EGo 0 0 0, ENotify, ESetReadDeadline 0, ERead 0,
        ELog (ReadError (str ''239.255.255.250'') (str ''eth0'') 1900 connection_reset),
        EClose 0, EClose 1, ELog AllDone])"
  using run1_read_error by auto

text \<open>
  C4, as the code has it. Let the goroutine \<open>k\<close> of a run be about to read, in a
  process that no signal has killed. Its connection \<open>c\<close> is the listening connection
  of its triple. When the read fails with an error that is not a timeout, the goroutine
  logs the error with its group, interface and port and returns: it is \<open>Done\<close> in every
  later state and takes no step again. Nothing else changes: the other goroutines are
  as they were and take the steps they would have taken, \<open>main\<close>, the handler and the
  context are as they were, and the process has not ended. Later the process has
  returned from \<open>main\<close> only with status 0 and with every goroutine returned; and when
  \<open>main\<close> waits and every goroutine has returned, cancelled or not, the next steps of
  \<open>main\<close> close every connection of the registry, log \<open>All done.\<close> and end the
  process with status 0.
  When the read fails with a timeout, nothing is logged, the goroutine is back at the
  \<open>select\<close>, and its next step there takes it to the read again, or, when the context is
  cancelled, to its return.
\<close>

theorem read_error_ends_worker:
  assumes "run net fl acts = Some s" and "\<not> exited s" and "k < length (s_workers s)"
    and "pc (s_workers s ! k) = AtRead"
  shows "\<exists>c. lconn (s_workers s ! k) = Some c \<and>
           entry (sh_conns (s_shared s)) (triple_of (s_workers s ! k)) = Some c \<and>
           (\<not> isTimeout err \<longrightarrow>
              (\<exists>s'. sys_step s (WorkerStep k (ReadReply (ReadErr err))) = Some s' \<and>
                 s_trace s' = s_trace s @
                   [ESetReadDeadline c, ERead c,
                    ELog (ReadError (sh_groups (s_shared s) ! gIdx (s_workers s ! k))
                            (sh_ifaces (s_shared s) ! iIdx (s_workers s ! k))
                            (sh_ports (s_shared s) ! pIdx (s_workers s ! k)) err)] \<and>
                 s_workers s' = (s_workers s)[k := (s_workers s ! k)\<lparr>pc := Done\<rparr>] \<and>
                 s_main s' = s_main s \<and> s_cancelled s' = s_cancelled s \<and>
                 s_handler s' = s_handler s \<and> s_shared s' = s_shared s \<and> \<not> exited s' \<and>
                 (\<forall>j r. j \<noteq> k \<longrightarrow>
                    map_option (\<lambda>t. s_workers t ! j) (sys_step s' (WorkerStep j r)) =
                    map_option (\<lambda>t. s_workers t ! j) (sys_step s (WorkerStep j r))) \<and>
                 (\<forall>rest s''. exec s' rest = Some s'' \<longrightarrow>
                    k < length (s_workers s'') \<and> pc (s_workers s'' ! k) = Done \<and>
                    (\<forall>r. sys_step s'' (WorkerStep k r) = None) \<and>
                    (\<forall>n. s_main s'' = MExited n \<longrightarrow>
                       n = 0 \<and> list_all (\<lambda>w. pc w = Done) (s_workers s'')) \<and>
                    (s_main s'' = MWait \<and> list_all (\<lambda>w. pc w = Done) (s_workers s'') \<longrightarrow>
                       (\<exists>cs s3. map CloseOp cs = close_ops s'' \<and>
                          exec s'' (replicate (length cs + 2) MainStep) = Some s3 \<and>
                          s_main s3 = MExited 0 \<and>
                          s_trace s3 = s_trace s'' @ map EClose cs @ [ELog AllDone] \<and>
                          s_cancelled s3 = s_cancelled s''))))) \<and>
           (isTimeout err \<longrightarrow>
              (\<exists>s'. sys_step s (WorkerStep k (ReadReply (ReadErr err))) = Some s' \<and>
                 s_trace s' = s_trace s @ [ESetReadDeadline c, ERead c] \<and>
                 s_workers s' = (s_workers s)[k := (s_workers s ! k)\<lparr>pc := AtSelect\<rparr>] \<and>
                 (\<exists>s''. sys_step s' (WorkerStep k NoReply) = Some s'' \<and>
                    pc (s_workers s'' ! k) = (if s_cancelled s then Done else AtRead))))"
proof -
  let ?w = "s_workers s ! k"
  note i = inv_run [OF assms(1)]
  note ne0 = assms(2)
  note r = inv_reading [OF i assms(3,4)]
  from r(1) obtain c where c: "lconn ?w = Some c"
    "entry (sh_conns (s_shared s)) (triple_of ?w) = Some c" by blast
  have hard: "\<exists>s'. sys_step s (WorkerStep k (ReadReply (ReadErr err))) = Some s' \<and>
                 s_trace s' = s_trace s @
                   [ESetReadDeadline c, ERead c,
                    ELog (ReadError (sh_groups (s_shared s) ! gIdx ?w)
                            (sh_ifaces (s_shared s) ! iIdx ?w)
                            (sh_ports (s_shared s) ! pIdx ?w) err)] \<and>
                 s_workers s' = (s_workers s)[k := ?w\<lparr>pc := Done\<rparr>] \<and>
                 s_main s' = s_main s \<and> s_cancelled s' = s_cancelled s \<and>
                 s_handler s' = s_handler s \<and> s_shared s' = s_shared s \<and> \<not> exited s' \<and>
                 (\<forall>j r. j \<noteq> k \<longrightarrow>
                    map_option (\<lambda>t. s_workers t ! j) (sys_step s' (WorkerStep j r)) =
                    map_option (\<lambda>t. s_workers t ! j) (sys_step s (WorkerStep j r))) \<and>
                 (\<forall>rest s''. exec s' rest = Some s'' \<longrightarrow>
                    k < length (s_workers s'') \<and> pc (s_workers s'' ! k) = Done \<and>
                    (\<forall>r. sys_step s'' (WorkerStep k r) = None) \<and>
                    (\<forall>n. s_main s'' = MExited n \<longrightarrow>
                       n = 0 \<and> list_all (\<lambda>w. pc w = Done) (s_workers s'')) \<and>
                    (s_main s'' = MWait \<and> list_all (\<lambda>w. pc w = Done) (s_workers s'') \<longrightarrow>
                       (\<exists>cs s3. map CloseOp cs = close_ops s'' \<and>
                          exec s'' (replicate (length cs + 2) MainStep) = Some s3 \<and>
                          s_main s3 = MExited 0 \<and>
                          s_trace s3 = s_trace s'' @ map EClose cs @ [ELog AllDone] \<and>
                          s_cancelled s3 = s_cancelled s'')))"
    if nt: "\<not> isTimeout err"
  proof -
    define s' where "s' = s\<lparr>s_workers := (s_workers s)[k := ?w\<lparr>pc := Done\<rparr>],
        s_trace := s_trace s @
          [ESetReadDeadline c, ERead c,
           ELog (ReadError (sh_groups (s_shared s) ! gIdx ?w)
                   (sh_ifaces (s_shared s) ! iIdx ?w)
                   (sh_ports (s_shared s) ! pIdx ?w) err)],
        s_wg := s_wg s - 1\<rparr>"
    have st: "sys_step s (WorkerStep k (ReadReply (ReadErr err))) = Some s'"
      using ne0 assms(3,4) c(1) nt r(2-4)
      by (simp add: sys_step_def goroutine_step_def worker_step_def s'_def)
    have ne: "\<not> exited s'" using ne0 by (simp add: s'_def exited_def)
    have k': "k < length (s_workers s')" "pc (s_workers s' ! k) = Done"
      using assms(3) by (simp_all add: s'_def)
    have oth: "map_option (\<lambda>t. s_workers t ! j) (sys_step s' (WorkerStep j r)) =
               map_option (\<lambda>t. s_workers t ! j) (sys_step s (WorkerStep j r))"
      if "j \<noteq> k" for j r
      using that by (intro other_worker_step) (simp_all add: s'_def exited_def)
    have later: "k < length (s_workers s'') \<and> pc (s_workers s'' ! k) = Done \<and>
                 (\<forall>r. sys_step s'' (WorkerStep k r) = None) \<and>
                 (\<forall>n. s_main s'' = MExited n \<longrightarrow>
                    n = 0 \<and> list_all (\<lambda>w. pc w = Done) (s_workers s'')) \<and>
                 (s_main s'' = MWait \<and> list_all (\<lambda>w. pc w = Done) (s_workers s'') \<longrightarrow>
                    (\<exists>cs s3. map CloseOp cs = close_ops s'' \<and>
                       exec s'' (replicate (length cs + 2) MainStep) = Some s3 \<and>
                       s_main s3 = MExited 0 \<and>
                       s_trace s3 = s_trace s'' @ map EClose cs @ [ELog AllDone] \<and>
                       s_cancelled s3 = s_cancelled s''))"
      if e: "exec s' rest = Some s''" for rest s''
    proof -
      from exec_done_stays [OF e k'] k'(2)
      have d: "k < length (s_workers s'')" "pc (s_workers s'' ! k) = Done" by simp_all
      from inv_exec [OF inv_sys_step [OF i st] e] have i2: "inv s''" .
      from d(1) have nn: "s_workers s'' \<noteq> []" by auto
      have x: "n = 0 \<and> list_all (\<lambda>w. pc w = Done) (s_workers s'')"
        if "s_main s'' = MExited n" for n
        using inv_exit_done [OF i2 that nn] by simp
      have w: "\<exists>cs s3. map CloseOp cs = close_ops s'' \<and>
                 exec s'' (replicate (length cs + 2) MainStep) = Some s3 \<and>
                 s_main s3 = MExited 0 \<and>
                 s_trace s3 = s_trace s'' @ map EClose cs @ [ELog AllDone] \<and>
                 s_cancelled s3 = s_cancelled s''"
        if "s_main s'' = MWait \<and> list_all (\<lambda>w. pc w = Done) (s_workers s'')"
        using wait_to_exit [OF i2] that by blast
      from done_no_step [OF d] d x w show ?thesis by blast
    qed
    have "s_trace s' = s_trace s @
            [ESetReadDeadline c, ERead c,
             ELog (ReadError (sh_groups (s_shared s) ! gIdx ?w)
                     (sh_ifaces (s_shared s) ! iIdx ?w)
                     (sh_ports (s_shared s) ! pIdx ?w) err)]"
      "s_workers s' = (s_workers s)[k := ?w\<lparr>pc := Done\<rparr>]"
      "s_main s' = s_main s" "s_cancelled s' = s_cancelled s"
      "s_handler s' = s_handler s" "s_shared s' = s_shared s"
      by (simp_all add: s'_def)
    with st ne oth later show ?thesis by blast
  qed
  have soft: "\<exists>s'. sys_step s (WorkerStep k (ReadReply (ReadErr err))) = Some s' \<and>
                 s_trace s' = s_trace s @ [ESetReadDeadline c, ERead c] \<and>
                 s_workers s' = (s_workers s)[k := ?w\<lparr>pc := AtSelect\<rparr>] \<and>
                 (\<exists>s''. sys_step s' (WorkerStep k NoReply) = Some s'' \<and>
                    pc (s_workers s'' ! k) = (if s_cancelled s then Done else AtRead))"
    if t: "isTimeout err"
    using ne0 assms(3,4) c(1) t
    by (simp add: sys_step_def goroutine_step_def worker_step_def exited_def)
  from c hard soft show ?thesis by blast
qed

theorem read_error_ends_worker_witness:
  "\<exists>s. run net_up flags3 last_reader_schedule = Some s \<and>
       pc (s_workers s ! 0) = AtRead \<and> \<not> exited s \<and> \<not> isTimeout connection_reset \<and>
       (\<exists>s' s3. sys_step s (WorkerStep 0 (ReadReply (ReadErr connection_reset))) = Some s' \<and>
          s_trace s' = s_trace s @
            [ESetReadDeadline 0, ERead 0,
             ELog (ReadError (str ''239.255.255.250'') (str ''eth0'') 1900 connection_reset)] \<and>
          map pc (s_workers s') = [Done, Done, Done] \<and> \<not> exited s' \<and>
          exec s' (replicate 8 MainStep) = Some s3 \<and> s_main s3 = MExited 0 \<and>
          \<not> s_cancelled s3 \<and>
          s_trace s3 = s_trace s' @
            [EClose 0, EClose 1, EClose 2, EClose 3, EClose 4, EClose 5, ELog AllDone])"
proof -
  from run3_last_reader obtain s where r: "run net_up flags3 last_reader_schedule = Some s"
    and s: "length (s_workers s) = 3" "pc (s_workers s ! 0) = AtRead"
      "pc (s_workers s ! 1) = Done" "pc (s_workers s ! 2) = Done" "s_main s = MWait"
      "\<not> s_cancelled s" "lconn (s_workers s ! 0) = Some 0"
      "triple_of (s_workers s ! 0) = (0, 0, 0)"
      "s_shared s = s_shared (init_sys config3 regs3 proc3)"
    by auto
  from s(1) have k: "0 < length (s_workers s)" by simp
  from s(5) have ne: "\<not> exited s" by (simp add: exited_def)
  from s(8) have g: "gIdx (s_workers s ! 0) = 0" "iIdx (s_workers s ! 0) = 0"
    "pIdx (s_workers s ! 0) = 0" by (simp_all add: triple_of_def)
  have nt: "\<not> isTimeout connection_reset" by (simp add: isTimeout_def connection_reset_def)
  from read_error_ends_worker [OF r ne k s(2), of connection_reset] s(7) nt
  obtain s' where s': "sys_step s (WorkerStep 0 (ReadReply (ReadErr connection_reset))) = Some s'"
    "s_trace s' = s_trace s @
       [ESetReadDeadline 0, ERead 0,
        ELog (ReadError (sh_groups (s_shared s) ! gIdx (s_workers s ! 0))
                (sh_ifaces (s_shared s) ! iIdx (s_workers s ! 0))
                (sh_ports (s_shared s) ! pIdx (s_workers s ! 0)) connection_reset)]"
    "s_workers s' = (s_workers s)[0 := (s_workers s ! 0)\<lparr>pc := Done\<rparr>]"
    "s_main s' = s_main s" "s_cancelled s' = s_cancelled s" "s_shared s' = s_shared s"
    "\<not> exited s'"
    and later: "\<And>rest s''. exec s' rest = Some s'' \<Longrightarrow>
       s_main s'' = MWait \<and> list_all (\<lambda>w. pc w = Done) (s_workers s'') \<longrightarrow>
         (\<exists>cs s3. map CloseOp cs = close_ops s'' \<and>
            exec s'' (replicate (length cs + 2) MainStep) = Some s3 \<and>
            s_main s3 = MExited 0 \<and>
            s_trace s3 = s_trace s'' @ map EClose cs @ [ELog AllDone] \<and>
            s_cancelled s3 = s_cancelled s'')"
    by auto
  from s(1) obtain w0 w1 w2 where ws: "s_workers s = [w0, w1, w2]"
    by (auto simp: numeral_3_eq_3 length_Suc_conv)
  with s(3,4) s'(3) have pcs: "map pc (s_workers s') = [Done, Done, Done]" by simp
  then have ad: "list_all (\<lambda>w. pc w = Done) (s_workers s')"
    by (auto simp: list_all_iff dest!: arg_cong [where f = set])
  from later [of "[]" s'] s'(4) s(5) ad obtain cs s3 where
    cs: "map CloseOp cs = close_ops s'"
    and e: "exec s' (replicate (length cs + 2) MainStep) = Some s3"
      "s_main s3 = MExited 0" "s_trace s3 = s_trace s' @ map EClose cs @ [ELog AllDone]"
      "s_cancelled s3 = s_cancelled s'"
    by auto
  from cs close_ops3 [of s'] s'(6) s(9) have "cs = [0, 1, 2, 3, 4, 5]"
    by (auto simp: map_eq_Cons_conv)
  with e s' s pcs g r ne nt show ?thesis
    by (simp add: init_sys_def config3_def numeral_eq_Suc)
qed

section \<open>A datagram in a run\<close>

lemma exec_worker_run:
  assumes "worker_run (s_shared s) (s_cancelled s) (s_workers s ! k) rs = Some (w', evs)"
    and "inv s" and "\<not> exited s" and "k < length (s_workers s)"
  shows "\<exists>s'. exec s (map (WorkerStep k) rs) = Some s' \<and> s_trace s' = s_trace s @ evs \<and>
           s_workers s' = (s_workers s)[k := w'] \<and> s_main s' = s_main s \<and>
           s_cancelled s' = s_cancelled s \<and> s_shared s' = s_shared s"
  using assms
proof (induction rs arbitrary: s evs)
  case Nil
  then show ?case by auto
next
  case (Cons r rs)
  from Cons.prems(1) obtain w1 evs1 evs2 where
    ws: "worker_step (s_shared s) (s_cancelled s) r (s_workers s ! k) = Some (w1, evs1)"
    and wr: "worker_run (s_shared s) (s_cancelled s) w1 rs = Some (w', evs2)"
    and evs: "evs = evs1 @ evs2"
    by (auto split: option.splits)
  let ?s1 = "s\<lparr>s_workers := (s_workers s)[k := w1], s_trace := s_trace s @ evs1,
                s_wg := (if pc w1 = Done then s_wg s - 1 else s_wg s),
                s_main := (if pc w1 = Panicked then MExited 2 else s_main s)\<rparr>"
  from ws Cons.prems(3,4) have st: "sys_step s (WorkerStep k r) = Some ?s1"
    by (simp add: sys_step_def goroutine_step_def)
  from inv_sys_step [OF Cons.prems(2) st] have i1: "inv ?s1" .
  from Cons.prems(4) have "w1 \<in> set (s_workers ?s1)" by (simp add: set_update_memI)
  with i1 have np: "pc w1 \<noteq> Panicked" by (simp add: inv_def)
  then have m1: "s_main ?s1 = s_main s" by simp
  with Cons.prems(3) have ne1: "\<not> exited ?s1" by (simp add: exited_def)
  from Cons.prems(4) have k1: "k < length (s_workers ?s1)" "s_workers ?s1 ! k = w1" by simp_all
  from wr k1 have "worker_run (s_shared ?s1) (s_cancelled ?s1) (s_workers ?s1 ! k) rs =
      Some (w', evs2)" by simp
  from Cons.IH [OF this i1 ne1 k1(1)] obtain s' where
    "exec ?s1 (map (WorkerStep k) rs) = Some s'" "s_trace s' = s_trace ?s1 @ evs2"
    "s_workers s' = (s_workers ?s1)[k := w']" "s_main s' = s_main ?s1"
    "s_cancelled s' = s_cancelled ?s1" "s_shared s' = s_shared ?s1"
    by blast
  with st evs np have "exec s (map (WorkerStep k) (r # rs)) = Some s' \<and>
           s_trace s' = s_trace s @ evs \<and>
           s_workers s' = (s_workers s)[k := w'] \<and> s_main s' = s_main s \<and>
           s_cancelled s' = s_cancelled s \<and> s_shared s' = s_shared s"
    by simp
  then show ?case ..
qed

lemma run3_reading:
  "\<exists>s. run net_up flags3 reading_schedule = Some s \<and> length (s_workers s) = 3 \<and>
       pc (s_workers s ! 0) = AtRead \<and> pc (s_workers s ! 1) = AtStart \<and>
       s_main s = MWait \<and> \<not> s_cancelled s \<and> lconn (s_workers s ! 0) = Some 0 \<and>
       triple_of (s_workers s ! 0) = (0, 0, 0) \<and> wgroup (s_workers s ! 0) = str ''239.255.255.250'' \<and>
       s_trace s = trace proc3 @ [EGo 0 0 0, EGo 0 1 0, EGo 0 2 0, ENotify] \<and>
       s_shared s = shared3"
  by (simp add: run_def boot3 reading_schedule_def init_sys_def triples_def config3_def
      regs3_def step_defs triple_of_def shared3_def)

lemma sys_step_frame:
  assumes "sys_step s a = Some s'" and "k < length (s_workers s)"
    and "\<forall>r. a \<noteq> WorkerStep k r"
  shows "s_workers s' ! k = s_workers s ! k \<and> s_shared s' = s_shared s"
proof -
  from sys_step_trace [OF assms(1)] have sh: "s_shared s' = s_shared s" by simp
  have "s_workers s' ! k = s_workers s ! k"
  proof (cases a)
    case MainStep
    with assms(1) have m: "main_step s = Some s'" by (simp add: sys_step_def split: if_splits)
    show ?thesis
    proof (cases "s_main s")
      case (MStartForwarding ts)
      with m assms(2) show ?thesis by (cases ts) (auto simp: main_step_def nth_append)
    next
      case MWait
      with m show ?thesis by (auto simp: main_step_def split: if_splits)
    next
      case (MCloseConnections ops)
      with m show ?thesis by (cases ops) (auto simp: main_step_def split: closeop.splits)
    next
      case (MExited n)
      with m show ?thesis by (simp add: main_step_def)
    next
      case (MKilled sig)
      with m show ?thesis by (simp add: main_step_def)
    qed
  next
    case (WorkerStep j r)
    with assms(3) have jk: "j \<noteq> k" by auto
    from WorkerStep assms(1) have "goroutine_step j r s = Some s'"
      by (simp add: sys_step_def split: if_splits)
    then obtain w' evs where "s_workers s' = (s_workers s)[j := w']"
      by (auto elim!: goroutine_stepE)
    with jk show ?thesis by simp
  next
    case HandlerStep
    with assms(1) show ?thesis
      by (auto simp: sys_step_def handler_step_def
          split: if_splits handlerpc.splits option.splits)
  next
    case (Signal sig)
    with assms(1) show ?thesis
      by (auto simp: sys_step_def signal_step_def split: if_splits)
  qed
  with sh show ?thesis by simp
qed

text \<open>
  C1. Let the goroutine \<open>k\<close> of a run be about to read, in a process that has not
  ended, and let the read return a datagram \<open>d\<close>, of any length that \<open>ReadFromUDP\<close>
  can return into the buffer of \<open>BufferLen\<close> bytes, the empty datagram included.
  Whatever the writes answer, the steps of the goroutine for this datagram are steps of
  the process; they take the goroutine back to its \<open>select\<close>, and the writes they add
  to the trace are, in the order of the interfaces, one write of exactly \<open>d\<close> to the
  sending connection that the registry holds for each interface other than its own,
  for its group and its port index: no connection is written twice, and the sending
  connection of its own interface is not written. The steps of the goroutine and
  their events are the same whether the context is cancelled or not, and a step of
  anyone else leaves the goroutine and the shared data as they are: the writes are the
  same however the steps are interleaved with those of the others.
\<close>

theorem forward_to_every_other_interface:
  assumes "run net fl acts = Some s" and "\<not> exited s" and "k < length (s_workers s)"
    and "pc (s_workers s ! k) = AtRead" and "length d \<le> BufferLen"
  shows "\<exists>s' evs.
           exec s (map (WorkerStep k)
                         (datagram_replies (s_shared s) (s_workers s ! k) d src wr)) = Some s' \<and>
           s_trace s' = s_trace s @ evs \<and>
           pc (s_workers s' ! k) = AtSelect \<and>
           (\<forall>j < length (s_workers s). j \<noteq> k \<longrightarrow> s_workers s' ! j = s_workers s ! j) \<and>
           writes evs =
             map (\<lambda>j. (sender_of (s_shared s) (s_workers s ! k) j, d))
               (peers (s_shared s) (s_workers s ! k)) \<and>
           (\<forall>j < length (sh_ifaces (s_shared s)).
              entry (sh_senders (s_shared s))
                (gIdx (s_workers s ! k), j, pIdx (s_workers s ! k)) =
              Some (sender_of (s_shared s) (s_workers s ! k) j)) \<and>
           distinct (map fst (writes evs)) \<and>
           sender_of (s_shared s) (s_workers s ! k) (iIdx (s_workers s ! k))
             \<notin> set (map fst (writes evs)) \<and>
           (\<forall>c. worker_run (s_shared s) c (s_workers s ! k)
                  (datagram_replies (s_shared s) (s_workers s ! k) d src wr) =
                Some (s_workers s' ! k, evs)) \<and>
           (\<forall>a s1. sys_step s a = Some s1 \<and> (\<forall>r. a \<noteq> WorkerStep k r) \<longrightarrow>
              s_workers s1 ! k = s_workers s ! k \<and> s_shared s1 = s_shared s)"
proof -
  let ?w = "s_workers s ! k"
  let ?sh = "s_shared s"
  note i = inv_run [OF assms(1)]
  from i have wf: "wf_shared ?sh" by (simp add: inv_def)
  note r = inv_reading [OF i assms(3,4)]
  from r(1) obtain c where c: "lconn ?w = Some c" by blast
  from fanout_writes [OF wf r(6) assms(4) c r(5) assms(5), of "s_cancelled s" src wr]
  obtain w' evs where
    wr: "worker_run ?sh (s_cancelled s) ?w (datagram_replies ?sh ?w d src wr) = Some (w', evs)"
    and f: "pc w' = AtSelect"
      "writes evs = map (\<lambda>j. (sender_of ?sh ?w j, d)) (peers ?sh ?w)"
      "distinct (map fst (writes evs))"
      "sender_of ?sh ?w (iIdx ?w) \<notin> set (map fst (writes evs))"
    by blast
  from exec_worker_run [OF wr i assms(2,3)] obtain s' where
    e: "exec s (map (WorkerStep k) (datagram_replies ?sh ?w d src wr)) = Some s'"
      "s_trace s' = s_trace s @ evs" "s_workers s' = (s_workers s)[k := w']"
    by blast
  from e(3) assms(3) f(1) have p: "pc (s_workers s' ! k) = AtSelect"
    and o: "\<forall>j < length (s_workers s). j \<noteq> k \<longrightarrow> s_workers s' ! j = s_workers s ! j"
    by simp_all
  have en: "\<forall>j < length (sh_ifaces ?sh).
      entry (sh_senders ?sh) (gIdx ?w, j, pIdx ?w) = Some (sender_of ?sh ?w j)"
    using wf_sender [OF wf r(6)] by (simp add: entry_def)
  have any: "worker_run ?sh c ?w (datagram_replies ?sh ?w d src wr) =
      Some (s_workers s' ! k, evs)" for c
  proof -
    from datagram_run [OF wf r(6) assms(4) c r(5) assms(5), of c src wr]
      datagram_run [OF wf r(6) assms(4) c r(5) assms(5), of "s_cancelled s" src wr] wr
    have "worker_run ?sh c ?w (datagram_replies ?sh ?w d src wr) = Some (w', evs)" by simp
    with e(3) assms(3) show ?thesis by simp
  qed
  have fr: "s_workers s1 ! k = s_workers s ! k \<and> s_shared s1 = s_shared s"
    if "sys_step s a = Some s1 \<and> (\<forall>r. a \<noteq> WorkerStep k r)" for a s1
    using sys_step_frame [of s a s1 k] that assms(3) by blast
  from e(1,2) p o f(2-4) en any fr show ?thesis by blast
qed

theorem forward_to_every_other_interface_witness:
  "\<exists>s. run net_up flags3 reading_schedule = Some s \<and> \<not> exited s \<and>
       pc (s_workers s ! 0) = AtRead \<and> length [72, 105 :: nat] \<le> BufferLen \<and>
       (\<exists>s'. exec s (map (WorkerStep 0)
                        [ReadReply (ReadOk [72, 105] src3), NoReply, WriteReply None,
                         WriteReply None, NoReply]) = Some s' \<and>
          writes (s_trace s') = [(3, [72, 105]), (5, [72, 105])] \<and>
          pc (s_workers s' ! 0) = AtSelect) \<and>
       (\<exists>s'. exec s (map (WorkerStep 0)
                        [ReadReply (ReadOk [] src3), NoReply, WriteReply None,
                         WriteReply None, NoReply]) = Some s' \<and>
          writes (s_trace s') = [(3, []), (5, [])] \<and>
          pc (s_workers s' ! 0) = AtSelect)"
proof -
  from run3_reading obtain s where r: "run net_up flags3 reading_schedule = Some s"
    and s: "length (s_workers s) = 3" "pc (s_workers s ! 0) = AtRead" "s_main s = MWait"
      "triple_of (s_workers s ! 0) = (0, 0, 0)"
      "s_trace s = trace proc3 @ [EGo 0 0 0, EGo 0 1 0, EGo 0 2 0, ENotify]"
      "s_shared s = shared3"
    by auto
  from s(1) have k: "0 < length (s_workers s)" by simp
  from s(3) have ne: "\<not> exited s" by (simp add: exited_def)
  have l: "length [72, 105 :: nat] \<le> BufferLen" by (simp add: BufferLen_def)
  from s(4) have g: "gIdx (s_workers s ! 0) = 0" "iIdx (s_workers s ! 0) = 0"
    "pIdx (s_workers s ! 0) = 0" by (simp_all add: triple_of_def)
  have d: "datagram_replies shared3 (s_workers s ! 0) x src3 (\<lambda>j. None) =
      [ReadReply (ReadOk x src3), NoReply, WriteReply None, WriteReply None, NoReply]" for x
    by (simp add: datagram_replies_def fanout_from_def shared3_def g upt_rec)
  have p: "peers shared3 (s_workers s ! 0) = [1, 2]"
    by (simp add: peers_def shared3_def g upt_rec)
  have so: "sender_of shared3 (s_workers s ! 0) (Suc 0) = 3"
    "sender_of shared3 (s_workers s ! 0) 2 = 5"
    by (simp_all add: sender_of_def entry_def at3_def at_def shared3_def regs3_def g)
  have w0: "writes (s_trace s) = []" by (simp add: s(5) proc3_def)
  have l0: "length ([] :: nat list) \<le> BufferLen" by simp
  from forward_to_every_other_interface [OF r ne k s(2) l, of src3 "\<lambda>j. None"]
  have a: "\<exists>s'. exec s (map (WorkerStep 0)
                        [ReadReply (ReadOk [72, 105] src3), NoReply, WriteReply None,
                         WriteReply None, NoReply]) = Some s' \<and>
          writes (s_trace s') = [(3, [72, 105]), (5, [72, 105])] \<and>
          pc (s_workers s' ! 0) = AtSelect"
    by (auto simp: s(6) d p so writes_append w0)
  from forward_to_every_other_interface [OF r ne k s(2) l0, of src3 "\<lambda>j. None"]
  have b: "\<exists>s'. exec s (map (WorkerStep 0)
                        [ReadReply (ReadOk [] src3), NoReply, WriteReply None,
                         WriteReply None, NoReply]) = Some s' \<and>
          writes (s_trace s') = [(3, []), (5, [])] \<and>
          pc (s_workers s' ! 0) = AtSelect"
    by (auto simp: s(6) d p so writes_append w0)
  from a b r ne s(2) l show ?thesis by blast
qed

section \<open>The answers of the operating system at start-up\<close>




































end
